theory Spec2Isabelle
  imports Main "HOL-Library.Sublist"
begin

text \<open>
  A model of the workflow engine of the command-line assistant: the variable
  substitutor and the executor of \<open>workflows/manager.js\<close>, the workflow tables of
  \<open>core/database.js\<close> they read and write, and the delay of the debug shell's cleanup
  timer. Definitions come first, in the order of the sources; the properties follow.
\<close>

section \<open>Strings and numbers of the host language\<close>

text \<open>
  The program is JavaScript. Strings are modelled as \<open>string\<close> (lists of characters);
  the commands, variable names and messages the claims are about are ASCII.
\<close>

definition isDigit :: "char \<Rightarrow> bool" where
  "isDigit c = (48 \<le> (of_char c :: nat) \<and> (of_char c :: nat) \<le> 57)"

definition digitValue :: "char \<Rightarrow> nat" where
  "digitValue c = (of_char c :: nat) - 48"

text \<open>The decimal reading of a string of digits, most significant digit first.\<close>

definition decimal :: "string \<Rightarrow> nat" where
  "decimal ds = foldl (\<lambda>acc c. 10 * acc + digitValue c) 0 ds"

text \<open>
  Numbers are IEEE doubles in the source. Every natural number up to
  \<open>2 ^ 53 = 9007199254740992\<close> is a double, and a product of such numbers that stays
  in that range is computed exactly. The model tracks exactly those values; a number
  above the range is \<open>Beyond\<close>, about which the model says nothing more. \<open>NaN\<close> is
  what arithmetic on \<open>undefined\<close> gives.
\<close>

datatype number = Num nat | Beyond | NaN

definition toNumber :: "nat \<Rightarrow> number" where
  "toNumber n = (if n \<le> 9007199254740992 then Num n else Beyond)"

fun times :: "number \<Rightarrow> number \<Rightarrow> number" where
  "times (Num a) (Num b) = toNumber (a * b)"
| "times NaN b = NaN"
| "times a NaN = NaN"
| "times a b = Beyond"

text \<open>\<open>parseInt\<close> on a non-empty string of decimal digits.\<close>

definition parseInt :: "string \<Rightarrow> number" where
  "parseInt ds = toNumber (decimal ds)"

section \<open>Debug shells: the auto-cleanup delay\<close>

text \<open>
  \<open>duration.match(/^(\d+)([hms])$/)\<close>: the greedy run of digits from the start of the
  string must be non-empty and must be followed by exactly one of \<open>h\<close>, \<open>m\<close>, \<open>s\<close>,
  which ends the string. The result is the pair of captures, or \<open>None\<close> for
  \<open>null\<close>.
\<close>

definition matchDuration :: "string \<Rightarrow> (string \<times> char) option" where
  "matchDuration duration =
     (let value = takeWhile isDigit duration; rest = dropWhile isDigit duration
      in case rest of
           [unit] \<Rightarrow>
             if value \<noteq> [] \<and> unit \<in> {CHR ''h'', CHR ''m'', CHR ''s''}
             then Some (value, unit) else None
         | _ \<Rightarrow> None)"

text \<open>The object \<open>multipliers\<close>; a key it does not have reads as \<open>undefined\<close>.\<close>

definition multipliers :: "char \<Rightarrow> number" where
  "multipliers unit =
     (case map_of [(CHR ''s'', 1000), (CHR ''m'', 60000), (CHR ''h'', 3600000)] unit of
        Some m \<Rightarrow> Num m
      | None \<Rightarrow> NaN)"

definition parseDuration :: "string \<Rightarrow> number" where
  "parseDuration duration =
     (case matchDuration duration of
        None \<Rightarrow> Num 3600000
      | Some (value, unit) \<Rightarrow> times (parseInt value) (multipliers unit))"

text \<open>
  \<open>scheduleCleanup\<close> registers one timer with the delay that \<open>parseDuration\<close> returns.
  The pending timers are the state; what the callback does when it fires is not part
  of the model.
\<close>

record timer =
  delay :: number
  target :: string

definition scheduleCleanup :: "string \<Rightarrow> string \<Rightarrow> timer list \<Rightarrow> timer list" where
  "scheduleCleanup service duration timers =
     timers @ [\<lparr>delay = parseDuration duration, target = service\<rparr>]"

section \<open>Regular expressions built from variable names\<close>

text \<open>
  \<open>replaceVariables\<close> builds two regular expressions from every variable name,
  \<open>new RegExp(`\\$\\{${key}\\}`, "g")\<close> and \<open>new RegExp(`\\$${key}`, "g")\<close>, without
  escaping the name. The model covers the patterns made of literal characters, escaped
  syntax characters and the dot, and the patterns that end in a lone backslash or have
  an opening parenthesis that is never closed, which the constructor refuses with a
  \<open>SyntaxError\<close>. Any other pattern is \<open>Unmodelled\<close>: the model makes no statement
  about it.
\<close>

definition backslash :: char where
  "backslash = CHR 0x5C"

definition isSyntaxCharacter :: "char \<Rightarrow> bool" where
  "isSyntaxCharacter c = (c \<in> set ''^$.*+?()[]{}|'' \<or> c = backslash)"

text \<open>
  The dot matches every character but a line terminator; of the four line terminators,
  line feed and carriage return are characters of the model.
\<close>

definition isLineTerminator :: "char \<Rightarrow> bool" where
  "isLineTerminator c = (c = CHR 0x0A \<or> c = CHR 0x0D)"

datatype atom = Lit char | AnyChar

text \<open>
  A pattern that is not compiled is either \<open>Invalid\<close>, refused by the constructor, or
  \<open>Unknown\<close>, outside the patterns of the model.
\<close>

datatype refusal = Invalid | Unknown

fun addAtom :: "atom \<Rightarrow> refusal + atom list \<Rightarrow> refusal + atom list" where
  "addAtom a (Inl e) = Inl e"
| "addAtom a (Inr atoms) = Inr (a # atoms)"

text \<open>
  The pattern parser. A backslash before a syntax character is an identity escape; a
  backslash that ends the pattern is invalid; an opening parenthesis with no closing
  parenthesis anywhere after it opens a group that is never closed, so the pattern is
  invalid whatever follows it.
\<close>

fun parsePattern :: "string \<Rightarrow> refusal + atom list" where
  "parsePattern [] = Inr []"
| "parsePattern (c # cs) =
     (if c = backslash then
        (case cs of
           [] \<Rightarrow> Inl Invalid
         | d # ds \<Rightarrow>
             if isSyntaxCharacter d then addAtom (Lit d) (parsePattern ds)
             else Inl Unknown)
      else if c = CHR ''.'' then addAtom AnyChar (parsePattern cs)
      else if c = CHR ''('' then
        (if CHR '')'' \<in> set cs then Inl Unknown
         else Inl Invalid)
      else if isSyntaxCharacter c then Inl Unknown
      else addAtom (Lit c) (parsePattern cs))"

text \<open>
  \<open>new RegExp(pattern, "g")\<close>. The \<open>SyntaxError\<close> it throws is recorded with the pattern
  that was refused. The text of the error's message is the engine's and differs between
  versions of V8; it is not part of this value.
\<close>

datatype fault = SyntaxError string | Unmodelled

definition RegExp :: "string \<Rightarrow> fault + atom list" where
  "RegExp pattern =
     (case parsePattern pattern of
        Inl Invalid \<Rightarrow> Inl (SyntaxError pattern)
      | Inl Unknown \<Rightarrow> Inl Unmodelled
      | Inr atoms \<Rightarrow> Inr atoms)"

fun atomMatches :: "atom \<Rightarrow> char \<Rightarrow> bool" where
  "atomMatches (Lit c) d = (c = d)"
| "atomMatches AnyChar d = (\<not> isLineTerminator d)"

text \<open>Whether the pattern matches at the start of the string; a match has one character per atom.\<close>

fun matchAt :: "atom list \<Rightarrow> string \<Rightarrow> bool" where
  "matchAt [] s = True"
| "matchAt (a # atoms) [] = False"
| "matchAt (a # atoms) (c # cs) = (atomMatches a c \<and> matchAt atoms cs)"

text \<open>
  \<open>GetSubstitution\<close> for a pattern without capture groups: in the replacement text
  \<open>$$\<close> is a dollar sign, \<open>$&\<close> the matched text, \<open>$`\<close> the text before the match,
  \<open>$'\<close> the text after it; any other dollar sign stands for itself.
\<close>

fun getSubstitution :: "string \<Rightarrow> string \<Rightarrow> string \<Rightarrow> string \<Rightarrow> string" where
  "getSubstitution matched preceding following [] = []"
| "getSubstitution matched preceding following (c # cs) =
     (if c = CHR ''$'' then
        (case cs of
           [] \<Rightarrow> [CHR ''$'']
         | d # ds \<Rightarrow>
             if d = CHR ''$'' then CHR ''$'' # getSubstitution matched preceding following ds
             else if d = CHR ''&'' then matched @ getSubstitution matched preceding following ds
             else if d = CHR 0x60 then preceding @ getSubstitution matched preceding following ds
             else if d = CHR 0x27 then following @ getSubstitution matched preceding following ds
             else CHR ''$'' # getSubstitution matched preceding following cs)
      else c # getSubstitution matched preceding following cs)"

text \<open>
  \<open>String.prototype.replace\<close> with a global regular expression: the string is scanned
  from left to right; at a match the substitution is emitted and the scan resumes after
  the match (after one more character when the match is empty); elsewhere the character
  is copied. \<open>preceding\<close> is the part of the string already scanned, \<open>rest\<close> the part
  still to scan.
\<close>

function replaceScan :: "atom list \<Rightarrow> string \<Rightarrow> string \<Rightarrow> string \<Rightarrow> string" where
  "replaceScan atoms replacement preceding rest =
     (if matchAt atoms rest then
        getSubstitution (take (length atoms) rest) preceding (drop (length atoms) rest) replacement @
          (if atoms = [] then
             (case rest of
                [] \<Rightarrow> []
              | c # cs \<Rightarrow> c # replaceScan atoms replacement (preceding @ [c]) cs)
           else replaceScan atoms replacement (preceding @ take (length atoms) rest)
                  (drop (length atoms) rest))
      else
        (case rest of
           [] \<Rightarrow> []
         | c # cs \<Rightarrow> c # replaceScan atoms replacement (preceding @ [c]) cs))"
  by pat_completeness auto
termination
proof (relation "measure (\<lambda>(atoms, replacement, preceding, rest). length rest)")
  show "wf (measure (\<lambda>(atoms, replacement, preceding, rest). length rest))"
    by simp
next
  fix atoms :: "atom list" and replacement preceding rest :: string and c cs
  assume "rest = c # cs"
  then show "((atoms, replacement, preceding @ [c], cs), (atoms, replacement, preceding, rest))
      \<in> measure (\<lambda>(atoms, replacement, preceding, rest). length rest)"
    by simp
next
  fix atoms :: "atom list" and replacement preceding rest :: string
  assume "matchAt atoms rest" and "atoms \<noteq> []"
  then have "rest \<noteq> []"
    by (cases atoms; cases rest) auto
  with \<open>atoms \<noteq> []\<close>
  show "((atoms, replacement, preceding @ take (length atoms) rest, drop (length atoms) rest),
         (atoms, replacement, preceding, rest))
      \<in> measure (\<lambda>(atoms, replacement, preceding, rest). length rest)"
    by (cases rest) auto
next
  fix atoms :: "atom list" and replacement preceding rest :: string and c cs
  assume "rest = c # cs"
  then show "((atoms, replacement, preceding @ [c], cs), (atoms, replacement, preceding, rest))
      \<in> measure (\<lambda>(atoms, replacement, preceding, rest). length rest)"
    by simp
qed

declare replaceScan.simps [simp del]

definition replace :: "string \<Rightarrow> atom list \<Rightarrow> string \<Rightarrow> string" where
  "replace str regexp replacement = replaceScan regexp replacement [] str"

section \<open>Variable maps\<close>

text \<open>
  A variable map is a JavaScript object with string values: its own properties in
  creation order, with distinct keys. \<open>Object.entries\<close> lists the keys that are array
  indices first, in ascending numeric order, then the other keys in creation order.
\<close>

type_synonym object = "(string \<times> string) list"

definition isArrayIndex :: "string \<Rightarrow> bool" where
  "isArrayIndex k =
     (k \<noteq> [] \<and> list_all isDigit k \<and> (hd k \<noteq> CHR ''0'' \<or> k = ''0'')
      \<and> decimal k < 4294967295)"

definition entries :: "object \<Rightarrow> (string \<times> string) list" where
  "entries obj =
     sort_key (\<lambda>(k, v). decimal k) (filter (\<lambda>(k, v). isArrayIndex k) obj)
     @ filter (\<lambda>(k, v). \<not> isArrayIndex k) obj"

definition setProperty :: "object \<Rightarrow> string \<Rightarrow> string \<Rightarrow> object" where
  "setProperty obj k v =
     (if k \<in> fst ` set obj then map (\<lambda>(k', v'). if k' = k then (k', v) else (k', v')) obj
      else obj @ [(k, v)])"

text \<open>One spread element \<open>...source\<close> of an object literal, copied into \<open>obj\<close>.\<close>

definition spread :: "object \<Rightarrow> object \<Rightarrow> object" where
  "spread obj source = foldl (\<lambda>acc (k, v). setProperty acc k v) obj (entries source)"

section \<open>The substitutor\<close>

definition bracedPattern :: "string \<Rightarrow> string" where
  "bracedPattern key = [backslash, CHR ''$'', backslash, CHR ''{''] @ key @ [backslash, CHR ''}'']"

definition barePattern :: "string \<Rightarrow> string" where
  "barePattern key = [backslash, CHR ''$''] @ key"

text \<open>The loop of \<open>replaceVariables\<close> over the entries; \<open>result\<close> is the string so far.\<close>

fun replaceEntries :: "(string \<times> string) list \<Rightarrow> string \<Rightarrow> fault + string" where
  "replaceEntries [] result = Inr result"
| "replaceEntries ((key, val) # others) result =
     (case RegExp (bracedPattern key) of
        Inl e \<Rightarrow> Inl e
      | Inr braced \<Rightarrow>
          (let result1 = replace result braced val in
           case RegExp (barePattern key) of
             Inl e \<Rightarrow> Inl e
           | Inr bare \<Rightarrow> replaceEntries others (replace result1 bare val)))"

definition replaceVariables :: "string \<Rightarrow> object \<Rightarrow> fault + string" where
  "replaceVariables command variables = replaceEntries (entries variables) command"

section \<open>The workflow store\<close>

text \<open>
  The two SQLite tables behind workflows (\<open>core/database.js\<close>), with their columns:
  the fields \<open>wf_\<close>\<open>\<dots>\<close> are the columns of \<open>workflows\<close>, the fields \<open>wc_\<close>\<open>\<dots>\<close> those
  of \<open>workflow_commands\<close>. \<open>workflows_seq\<close> is the largest row id the \<open>workflows\<close>
  table has ever used (its \<open>AUTOINCREMENT\<close> sequence). \<open>CURRENT_TIMESTAMP\<close> is the
  argument \<open>now\<close> of the operations. The \<open>variables\<close> column holds the JSON text of an
  object; the model stores the object that parsing that text gives back.
\<close>

record workflow_row =
  wf_id :: nat
  wf_name :: string
  wf_description :: string
  wf_parallel :: bool
  wf_continue_on_error :: bool
  wf_variables :: object
  wf_execution_count :: nat
  wf_created_at :: nat
  wf_updated_at :: nat
  wf_last_executed :: "nat option"

record command_row =
  wc_workflow_id :: nat
  wc_command :: string
  wc_order_index :: nat

record database =
  workflows :: "workflow_row list"
  workflow_commands :: "command_row list"
  workflows_seq :: nat

text \<open>The \<open>options\<close> argument of a save, with the defaults of the source filled in.\<close>

record options =
  optDescription :: string
  optParallel :: bool
  optContinueOnError :: bool
  optVariables :: object

text \<open>What \<open>getWorkflow\<close> returns: the row as read, with the command list added.\<close>

record workflow = workflow_row +
  wf_commands :: "string list"

text \<open>
  \<open>Database.saveWorkflow\<close>. \<open>INSERT OR REPLACE\<close> deletes the row that has the same
  name, if there is one, and with it (\<open>ON DELETE CASCADE\<close>) that row's commands; the new
  row gets a fresh id, the default execution count 0 and no \<open>last_executed\<close>. The fresh
  id is what \<open>result.lastID\<close> holds, so \<open>!workflowId\<close> is false and the block under it
  does not run. Then one command row is inserted per element of \<open>commands\<close>.
\<close>

definition saveWorkflow ::
  "database \<Rightarrow> nat \<Rightarrow> string \<Rightarrow> string list \<Rightarrow> options \<Rightarrow> database \<times> nat" where
  "saveWorkflow db now name commands opts =
     (let replaced = filter (\<lambda>w. wf_name w = name) (workflows db);
          workflowId = Suc (workflows_seq db);
          row = \<lparr>wf_id = workflowId, wf_name = name,
                 wf_description = optDescription opts,
                 wf_parallel = optParallel opts,
                 wf_continue_on_error = optContinueOnError opts,
                 wf_variables = entries (optVariables opts),
                 wf_execution_count = 0, wf_created_at = now, wf_updated_at = now,
                 wf_last_executed = None\<rparr>;
          kept = filter (\<lambda>c. wc_workflow_id c \<notin> set (map wf_id replaced)) (workflow_commands db);
          inserted = map (\<lambda>(i, c). \<lparr>wc_workflow_id = workflowId, wc_command = c,
                                      wc_order_index = i\<rparr>) (enumerate 0 commands)
      in (db\<lparr>workflows := filter (\<lambda>w. wf_name w \<noteq> name) (workflows db) @ [row],
              workflow_commands := kept @ inserted,
              workflows_seq := workflowId\<rparr>,
          workflowId))"

text \<open>
  \<open>Database.getWorkflow\<close>: reads the row and its commands in \<open>order_index\<close> order, then
  updates the execution statistics of the row, and returns what it read.
\<close>

definition getWorkflow :: "database \<Rightarrow> nat \<Rightarrow> string \<Rightarrow> database \<times> workflow option" where
  "getWorkflow db now name =
     (case find (\<lambda>w. wf_name w = name) (workflows db) of
        None \<Rightarrow> (db, None)
      | Some row \<Rightarrow>
          (let commands = map wc_command (sort_key wc_order_index
                 (filter (\<lambda>c. wc_workflow_id c = wf_id row) (workflow_commands db)));
               db1 = db\<lparr>workflows :=
                 map (\<lambda>w. if wf_id w = wf_id row
                           then w\<lparr>wf_execution_count := wf_execution_count w + 1,
                                  wf_last_executed := Some now\<rparr>
                           else w) (workflows db)\<rparr>
           in (db1, Some (workflow_row.extend row (workflow.fields commands)))))"

section \<open>The workflow manager\<close>

text \<open>Decimal text of a number, as a template literal prints it.\<close>

definition digitChar :: "nat \<Rightarrow> char" where
  "digitChar d = ''0123456789'' ! d"

fun showNat :: "nat \<Rightarrow> string" where
  "showNat n = (if n < 10 then [digitChar n] else showNat (n div 10) @ [digitChar (n mod 10)])"

declare showNat.simps [simp del]

record result =
  success :: bool
  message :: string

text \<open>
  The \<open>commands\<close> argument of \<open>save\<close> as its callers pass it: nothing, one string, or
  an array. \<open>!commands\<close> holds for nothing and for the empty string; every array, the
  empty one included, is truthy. \<open>commandArray\<close> is
  \<open>Array.isArray(commands) ? commands : [commands]\<close>; it is not reached for a missing
  argument, which the guard turns away.
\<close>

datatype commands_arg = Missing | Single string | Array "string list"

fun falsy :: "commands_arg \<Rightarrow> bool" where
  "falsy Missing = True"
| "falsy (Single c) = (c = [])"
| "falsy (Array cs) = False"

fun commandArray :: "commands_arg \<Rightarrow> string list" where
  "commandArray (Array cs) = cs"
| "commandArray (Single c) = [c]"
| "commandArray Missing = []"

definition apostrophe :: char where
  "apostrophe = CHR 0x27"

text \<open>
  \<open>WorkflowManager.save\<close>. The store raises no error on strings, so the \<open>catch\<close>
  branch of the source has no counterpart here.
\<close>

definition save ::
  "database \<Rightarrow> nat \<Rightarrow> string \<Rightarrow> commands_arg \<Rightarrow> options \<Rightarrow> database \<times> result" where
  "save db now name commands opts =
     (if name = [] \<or> falsy commands then
        (db, \<lparr>success = False, message = ''Name and commands are required''\<rparr>)
      else
        (case saveWorkflow db now name (commandArray commands) opts of
           (db1, workflowId) \<Rightarrow>
             (db1, \<lparr>success = True,
                    message = ''Workflow '' @ [apostrophe] @ name @ [apostrophe]
                      @ '' saved with '' @ showNat (length (commandArray commands))
                      @ '' commands''\<rparr>)))"

subsection \<open>Running commands\<close>

text \<open>
  What the run leaves behind outside the store: the lines it writes to the console
  (colours and the spinner's animation are not modelled, the lines the spinner leaves
  are) and the command strings it hands to the process layer, in order.
\<close>

datatype glyph = CheckMark | WarningSign

datatype console_event =
    ConsoleLog string
  | ConsoleMark glyph string
  | SpinnerSucceed string
  | SpinnerFail string

record world =
  console :: "console_event list"
  launched :: "string list"

text \<open>
  The process layer (\<open>execa(command, {shell: true})\<close>) is a parameter: for the command at
  a position of the workflow and its resolved text it says how the process ends, with
  its standard output, or rejected with \<open>error.stderr\<close> and \<open>error.message\<close>.
\<close>

datatype process_result = Exited string | Rejected string string

type_synonym process_layer = "nat \<Rightarrow> string \<Rightarrow> process_result"

text \<open>\<open>executeCommand\<close>: \<open>Inr\<close> the standard output, \<open>Inl\<close> the message of the error thrown.\<close>

definition executeCommand ::
  "process_layer \<Rightarrow> nat \<Rightarrow> string \<Rightarrow> world \<Rightarrow> world \<times> (string + string)" where
  "executeCommand proc i command w =
     (let w1 = w\<lparr>launched := launched w @ [command]\<rparr>
      in case proc i command of
           Exited out \<Rightarrow>
             ((if out \<noteq> [] then w1\<lparr>console := console w1 @ [ConsoleLog out]\<rparr> else w1),
              Inr out)
         | Rejected err msg \<Rightarrow> (w1, Inl (if err \<noteq> [] then err else msg)))"

definition progress :: "nat \<Rightarrow> nat \<Rightarrow> string \<Rightarrow> string" where
  "progress i len command =
     ''['' @ showNat (i + 1) @ ''/'' @ showNat len @ ''] '' @ command"

text \<open>
  The sequential branch of \<open>execute\<close>: the \<open>for\<close> loop from index \<open>i\<close> over the
  commands still to run, and at the end of the list the code after the loop. An
  exception of \<open>replaceVariables\<close> leaves \<open>execute\<close> (\<open>Inl\<close>).
\<close>

fun sequential ::
  "process_layer \<Rightarrow> object \<Rightarrow> bool \<Rightarrow> nat \<Rightarrow> nat \<Rightarrow> string list \<Rightarrow> bool \<Rightarrow> world
   \<Rightarrow> world \<times> (fault + result)" where
  "sequential proc variables continue_on_error len i [] failed w =
     (if failed \<and> continue_on_error then
        (w\<lparr>console := console w @ [ConsoleMark WarningSign ''Workflow completed with errors'']\<rparr>,
         Inr \<lparr>success = True, message = ''Workflow completed with errors''\<rparr>)
      else
        (w\<lparr>console := console w @ [ConsoleMark CheckMark ''Workflow completed successfully'']\<rparr>,
         Inr \<lparr>success = True, message = ''Workflow completed successfully''\<rparr>))"
| "sequential proc variables continue_on_error len i (cmd # cmds) failed w =
     (case replaceVariables cmd variables of
        Inl e \<Rightarrow> (w, Inl e)
      | Inr command \<Rightarrow>
          (case executeCommand proc i command w of
             (w1, Inr out) \<Rightarrow>
               sequential proc variables continue_on_error len (Suc i) cmds failed
                 (w1\<lparr>console := console w1 @ [SpinnerSucceed (progress i len command)]\<rparr>)
           | (w1, Inl error) \<Rightarrow>
               (let w2 = w1\<lparr>console := console w1 @
                           [SpinnerFail (progress i len command),
                            ConsoleLog (''  Error: '' @ error)]\<rparr>
                in if \<not> continue_on_error then
                     (w2, Inr \<lparr>success = False,
                               message = ''Workflow failed at command '' @ showNat (i + 1)\<rparr>)
                   else
                     sequential proc variables continue_on_error len (Suc i) cmds True
                       (w2\<lparr>console := console w2 @
                              [ConsoleLog ''  Continuing despite error...'']\<rparr>))))"

text \<open>
  In the parallel branch the calls of \<open>executeCommand\<close> are not awaited one by one,
  so its two halves happen at different times. The first half runs inside the call: the
  command is handed to the process layer (\<open>launch\<close>). The second half runs when the
  process has ended (\<open>settle\<close>): a non-empty standard output is logged and the promise
  is fulfilled, or the promise is rejected with the message of the error thrown.
\<close>

definition launch :: "string \<Rightarrow> world \<Rightarrow> world" where
  "launch command w = w\<lparr>launched := launched w @ [command]\<rparr>"

definition settle :: "process_result \<Rightarrow> world \<Rightarrow> world \<times> (string + string)" where
  "settle ended w =
     (case ended of
        Exited out \<Rightarrow>
          ((if out \<noteq> [] then w\<lparr>console := console w @ [ConsoleLog out]\<rparr> else w), Inr out)
      | Rejected err msg \<Rightarrow> (w, Inl (if err \<noteq> [] then err else msg)))"

text \<open>
  The \<open>map\<close> of the parallel branch resolves the commands in index order and launches
  each one as soon as it is resolved; an exception of \<open>replaceVariables\<close> ends the
  \<open>map\<close>. The exception comes from the variable names alone, so it is the first
  command that raises it, before anything is launched. The result is the list of the
  resolved commands.
\<close>

fun launchAll :: "object \<Rightarrow> string list \<Rightarrow> world \<Rightarrow> world \<times> (fault + string list)" where
  "launchAll variables [] w = (w, Inr [])"
| "launchAll variables (cmd # cmds) w =
     (case replaceVariables cmd variables of
        Inl e \<Rightarrow> (w, Inl e)
      | Inr command \<Rightarrow>
          (case launchAll variables cmds (launch command w) of
             (w1, Inl e) \<Rightarrow> (w1, Inl e)
           | (w1, Inr resolved) \<Rightarrow> (w1, Inr (command # resolved))))"

text \<open>
  \<open>await Promise.allSettled(promises)\<close>. The processes end in an order of their own:
  \<open>finish\<close>, a parameter, gives for every position the time at which its process ends,
  and the second halves of \<open>executeCommand\<close> run in that order (by position where the
  times are equal). The settled results are listed by position: \<open>Inr\<close> fulfilled,
  \<open>Inl\<close> rejected with the error's message.
\<close>

definition settleAll ::
  "process_layer \<Rightarrow> (nat \<Rightarrow> nat) \<Rightarrow> string list \<Rightarrow> world
   \<Rightarrow> world \<times> (string + string) list" where
  "settleAll proc finish resolved w =
     (foldl (\<lambda>w1 p. fst (settle (proc p (resolved ! p)) w1)) w
        (sort_key finish [0..<length resolved]),
      map (\<lambda>p. snd (settle (proc p (resolved ! p)) w)) [0..<length resolved])"

fun rejected :: "(string + string) list \<Rightarrow> string list" where
  "rejected [] = []"
| "rejected (Inl reason # rs) = reason # rejected rs"
| "rejected (Inr out # rs) = rejected rs"

text \<open>An \<open>Error\<close> object printed in a template literal.\<close>

definition errorToString :: "string \<Rightarrow> string" where
  "errorToString msg = (if msg = [] then ''Error'' else ''Error: '' @ msg)"

text \<open>
  The parallel branch of \<open>execute\<close>. Its \<open>catch\<close> block receives the \<open>SyntaxError\<close> of
  a refused pattern and puts the error's message into the result; \<open>wording\<close>, a
  parameter, is the message with which the engine refuses a pattern.
\<close>

definition parallelRun ::
  "(string \<Rightarrow> string) \<Rightarrow> (nat \<Rightarrow> nat) \<Rightarrow> process_layer \<Rightarrow> object \<Rightarrow> string list \<Rightarrow> world
   \<Rightarrow> world \<times> (fault + result)" where
  "parallelRun wording finish proc variables commands w =
     (case launchAll variables commands w of
        (w1, Inl (SyntaxError pattern)) \<Rightarrow>
          (w1, Inr \<lparr>success = False, message = ''Workflow failed: '' @ wording pattern\<rparr>)
      | (w1, Inl Unmodelled) \<Rightarrow> (w1, Inl Unmodelled)
      | (w1, Inr resolved) \<Rightarrow>
          (case settleAll proc finish resolved w1 of
             (w2, results) \<Rightarrow>
               (let failed = rejected results
                in if length failed > 0 then
                     (w2\<lparr>console := console w2
                           @ [ConsoleLog (showNat (length failed) @ '' commands failed'')]
                           @ map (\<lambda>(i, reason). ConsoleLog (''  Command '' @ showNat (i + 1)
                                                             @ '': '' @ errorToString reason))
                               (enumerate 0 failed)\<rparr>,
                      Inr \<lparr>success = False,
                           message = ''Workflow completed with '' @ showNat (length failed)
                                     @ '' failures''\<rparr>)
                   else
                     (w2\<lparr>console := console w2
                           @ [ConsoleMark CheckMark (''All '' @ showNat (length commands)
                                                     @ '' commands completed successfully'')]\<rparr>,
                      Inr \<lparr>success = True, message = ''Workflow completed successfully''\<rparr>))))"

text \<open>
  \<open>WorkflowManager.execute\<close>: fetch the workflow, merge the run-time variables over the
  stored ones, run the branch the workflow's \<open>parallel\<close> column selects. What the run
  depends on outside the store is passed in: the wording of the engine's errors, the
  times at which the processes end, and how they end.
\<close>

definition execute ::
  "(string \<Rightarrow> string) \<Rightarrow> (nat \<Rightarrow> nat) \<Rightarrow> process_layer \<Rightarrow> nat \<Rightarrow> string \<Rightarrow> object \<Rightarrow> database
   \<Rightarrow> world \<Rightarrow> database \<times> world \<times> (fault + result)" where
  "execute wording finish proc now name vars db w =
     (let w0 = w\<lparr>console := console w @ [ConsoleLog (CHR 0x0A # ''Executing workflow: '' @ name)]\<rparr>
      in case getWorkflow db now name of
           (db1, None) \<Rightarrow>
             (db1, w0, Inr \<lparr>success = False,
                            message = ''Workflow '' @ [apostrophe] @ name @ [apostrophe]
                                      @ '' not found''\<rparr>)
         | (db1, Some workflow) \<Rightarrow>
             (let variables = spread (spread [] (wf_variables workflow)) vars
              in if wf_parallel workflow then
                   (case parallelRun wording finish proc variables (wf_commands workflow) w0 of
                      (w1, r) \<Rightarrow> (db1, w1, r))
                 else
                   (case sequential proc variables (wf_continue_on_error workflow)
                           (length (wf_commands workflow)) 0 (wf_commands workflow) False w0 of
                      (w1, r) \<Rightarrow> (db1, w1, r))))"

section \<open>Placeholders as text\<close>

text \<open>
  A name is plain when none of its characters is a syntax character of regular
  expressions; the pattern built from a plain name matches the name literally.
\<close>

definition plainText :: "string \<Rightarrow> bool" where
  "plainText s = list_all (\<lambda>c. \<not> isSyntaxCharacter c) s"

text \<open>The two placeholder texts of a variable name: \<open>${k}\<close> and \<open>$k\<close>.\<close>

definition bracedPlaceholder :: "string \<Rightarrow> string" where
  "bracedPlaceholder k = ''${'' @ k @ ''}''"

definition barePlaceholder :: "string \<Rightarrow> string" where
  "barePlaceholder k = CHR ''$'' # k"

text \<open>Whether one of the placeholder texts of \<open>k\<close> occurs in \<open>s\<close>.\<close>

definition mentions :: "string \<Rightarrow> string \<Rightarrow> bool" where
  "mentions s k = (sublist (bracedPlaceholder k) s \<or> sublist (barePlaceholder k) s)"

text \<open>
  The reference for one exhaustive pass: \<open>s.split(placeholder).join(value)\<close>.
  \<open>split\<close> cuts the string at the occurrences of the separator, found from left to
  right without overlap (\<open>piece\<close> collects the current piece); \<open>join\<close> puts the pieces
  together with the value between them.
\<close>

function splitOn :: "string \<Rightarrow> string \<Rightarrow> string \<Rightarrow> string list" where
  "splitOn sep piece [] = [piece]"
| "splitOn sep piece (c # cs) =
     (if sep \<noteq> [] \<and> prefix sep (c # cs)
      then piece # splitOn sep [] (drop (length sep) (c # cs))
      else splitOn sep (piece @ [c]) cs)"
  by pat_completeness auto
termination
  by (relation "measure (\<lambda>(sep, piece, rest). length rest)") auto

definition split :: "string \<Rightarrow> string \<Rightarrow> string list" where
  "split s sep = (if sep = [] then map (\<lambda>c. [c]) s else splitOn sep [] s)"

fun join :: "string list \<Rightarrow> string \<Rightarrow> string" where
  "join [] sep = []"
| "join [piece] sep = piece"
| "join (piece # next # pieces) sep = piece @ sep @ join (next # pieces) sep"

definition substituteAll :: "string \<Rightarrow> string \<Rightarrow> string \<Rightarrow> string" where
  "substituteAll s placeholder val = join (split s placeholder) val"

section \<open>Observations on a run\<close>

text \<open>Whether a process ends in a rejection, the only failure signal of a command.\<close>

fun fails :: "process_result \<Rightarrow> bool" where
  "fails (Rejected err msg) = True"
| "fails (Exited out) = False"

text \<open>
  The outcome of a command in a sequential run is the line its spinner leaves on the
  console: \<open>succeed\<close> or \<open>fail\<close>, with the position and the resolved command.
\<close>

fun isOutcome :: "console_event \<Rightarrow> bool" where
  "isOutcome (SpinnerSucceed line) = True"
| "isOutcome (SpinnerFail line) = True"
| "isOutcome (ConsoleLog line) = False"
| "isOutcome (ConsoleMark g line) = False"

definition outcomes :: "world \<Rightarrow> console_event list" where
  "outcomes w = filter isOutcome (console w)"

text \<open>The outcome line of the command at position \<open>j\<close>, whose resolved text is \<open>r j\<close>.\<close>

definition outcomeLine :: "process_layer \<Rightarrow> nat \<Rightarrow> (nat \<Rightarrow> string) \<Rightarrow> nat \<Rightarrow> console_event" where
  "outcomeLine proc len r j =
     (if fails (proc j (r j)) then SpinnerFail (progress j len (r j))
      else SpinnerSucceed (progress j len (r j)))"

text \<open>The settled result of the promise that \<open>executeCommand\<close> returns.\<close>

fun settled :: "process_result \<Rightarrow> string + string" where
  "settled (Exited out) = Inr out"
| "settled (Rejected err msg) = Inl (if err \<noteq> [] then err else msg)"

text \<open>How many of the first \<open>n\<close> commands end in a rejection.\<close>

definition failures :: "process_layer \<Rightarrow> (nat \<Rightarrow> string) \<Rightarrow> nat \<Rightarrow> nat" where
  "failures proc r n = length (filter (\<lambda>j. fails (proc j (r j))) [0..<n])"

text \<open>
  What a parallel run can leave on the console for one command. When the process ends:
  the line with its standard output, if it exited and the output is not empty, and
  nothing otherwise.
\<close>

fun stdoutLines :: "process_result \<Rightarrow> console_event list" where
  "stdoutLines (Exited out) = (if out \<noteq> [] then [ConsoleLog out] else [])"
| "stdoutLines (Rejected err msg) = []"

text \<open>
  After all have settled: the summary. Without a rejection it is the single line that
  counts the commands. Otherwise it is the line that counts the rejections and then one
  line per rejected command, in the order of their positions; the number on that line
  is the rank \<open>i\<close> of the command among the rejected ones, not its position \<open>j\<close>.
\<close>

fun reason :: "process_result \<Rightarrow> string" where
  "reason (Rejected err msg) = (if err \<noteq> [] then err else msg)"
| "reason (Exited out) = []"

definition failing :: "process_layer \<Rightarrow> (nat \<Rightarrow> string) \<Rightarrow> nat \<Rightarrow> nat list" where
  "failing proc r n = filter (\<lambda>j. fails (proc j (r j))) [0..<n]"

definition summaryLines :: "process_layer \<Rightarrow> (nat \<Rightarrow> string) \<Rightarrow> nat \<Rightarrow> console_event list" where
  "summaryLines proc r n =
     (if failures proc r n = 0 then
        [ConsoleMark CheckMark (''All '' @ showNat n @ '' commands completed successfully'')]
      else
        ConsoleLog (showNat (failures proc r n) @ '' commands failed'')
        # map (\<lambda>(i, j). ConsoleLog (''  Command '' @ showNat (i + 1) @ '': ''
                                     @ errorToString (reason (proc j (r j)))))
            (enumerate 0 (failing proc r n)))"

section \<open>Sample data\<close>

definition emptyStore :: database where
  "emptyStore = \<lparr>workflows = [], workflow_commands = [], workflows_seq = 0\<rparr>"

definition quiet :: world where
  "quiet = \<lparr>console = [], launched = []\<rparr>"

definition plainOptions :: options where
  "plainOptions = \<lparr>optDescription = [], optParallel = False, optContinueOnError = False,
                    optVariables = []\<rparr>"

definition allExit :: process_layer where
  "allExit i command = Exited []"

text \<open>
  The message with which V8, in Node 22, refuses a pattern whose group is not closed, and
  two orders in which processes may end: by position, and the last one first.
\<close>

definition v8Wording :: "string \<Rightarrow> string" where
  "v8Wording pattern = ''Invalid regular expression: /'' @ pattern @ ''/g: Unterminated group''"

definition inOrder :: "nat \<Rightarrow> nat" where
  "inOrder p = p"

definition lastFirst :: "nat \<Rightarrow> nat" where
  "lastFirst p = 10 - p"

definition oneCommandStore :: database where
  "oneCommandStore = fst (save emptyStore 1 ''w'' (Array [''true'']) plainOptions)"

definition threeCommands :: "string list" where
  "threeCommands = [''echo build:${env}'', ''echo push:${env}'', ''true'']"

definition stagingOptions :: options where
  "stagingOptions = \<lparr>optDescription = [], optParallel = False, optContinueOnError = False,
                      optVariables = [(''env'', ''staging'')]\<rparr>"

definition deployStore :: "options \<Rightarrow> database" where
  "deployStore opts = fst (save emptyStore 1 ''deploy'' (Array threeCommands) opts)"

definition deployFlow :: "options \<Rightarrow> workflow" where
  "deployFlow opts =
     \<lparr>wf_id = 1, wf_name = ''deploy'', wf_description = optDescription opts,
      wf_parallel = optParallel opts, wf_continue_on_error = optContinueOnError opts,
      wf_variables = entries (optVariables opts), wf_execution_count = 0,
      wf_created_at = 1, wf_updated_at = 1, wf_last_executed = None,
      wf_commands = threeCommands\<rparr>"

text \<open>Process layers: the command at one position is rejected, every other one exits.\<close>

definition failsAt :: "nat \<Rightarrow> process_layer" where
  "failsAt k i command = (if i = k then Rejected ''boom'' ''Command failed'' else Exited [])"

text \<open>The same, with every other process printing a line that names its command.\<close>

definition printsExcept :: "nat \<Rightarrow> process_layer" where
  "printsExcept k i command =
     (if i = k then Rejected ''boom'' ''Command failed'' else Exited (''ran '' @ command))"

definition resolvedStaging :: "nat \<Rightarrow> string" where
  "resolvedStaging j = [''echo build:staging'', ''echo push:staging'', ''true''] ! j"

definition continueOptions :: options where
  "continueOptions = stagingOptions\<lparr>optContinueOnError := True\<rparr>"

definition parallelOptions :: options where
  "parallelOptions = stagingOptions\<lparr>optParallel := True\<rparr>"

section \<open>Properties of the cleanup delay\<close>

lemma matchDuration_digits:
  assumes "value \<noteq> []" and "list_all isDigit value"
    and "unit \<in> {CHR ''h'', CHR ''m'', CHR ''s''}"
  shows "matchDuration (value @ [unit]) = Some (value, unit)"
proof -
  have nd: "\<not> isDigit unit"
    using assms(3) by (auto simp: isDigit_def)
  have all: "\<forall>c\<in>set value. isDigit c"
    using assms(2) by (simp add: list_all_iff)
  have tw: "takeWhile isDigit (value @ [unit]) = value"
    using all nd by (simp add: takeWhile_append2)
  have dw: "dropWhile isDigit (value @ [unit]) = [unit]"
    using all nd by (simp add: dropWhile_append2)
  show ?thesis
    unfolding matchDuration_def Let_def tw dw using assms(1,3) by auto
qed

lemma matchDuration_Some:
  assumes "matchDuration duration = Some (value, unit)"
  shows "duration = value @ [unit] \<and> value \<noteq> [] \<and> list_all isDigit value
         \<and> unit \<in> {CHR ''h'', CHR ''m'', CHR ''s''}"
proof -
  from assms have rest: "dropWhile isDigit duration = [unit]"
    and val: "takeWhile isDigit duration = value" and ne: "value \<noteq> []"
    and u: "unit \<in> {CHR ''h'', CHR ''m'', CHR ''s''}"
    by (auto simp: matchDuration_def Let_def split: list.splits if_splits)
  have "duration = takeWhile isDigit duration @ dropWhile isDigit duration"
    by simp
  then have d: "duration = value @ [unit]"
    using rest val by simp
  have "\<forall>c\<in>set (takeWhile isDigit duration). isDigit c"
    by (auto dest: set_takeWhileD)
  then have "list_all isDigit value"
    using val by (simp add: list_all_iff)
  with d ne u show ?thesis by simp
qed

lemma times_exact:
  assumes "a * b \<le> 9007199254740992" and "0 < b"
  shows "times (toNumber a) (Num b) = Num (a * b)"
proof -
  have "a \<le> a * b" using assms(2) by simp
  then have "a \<le> 9007199254740992" using assms(1) by linarith
  then show ?thesis using assms(1) by (simp add: toNumber_def)
qed

text \<open>
  Claim C10. For a duration made of decimal digits followed by exactly one of \<open>s\<close>,
  \<open>m\<close>, \<open>h\<close>, \<open>parseDuration\<close> returns the product of \<open>parseInt\<close> of the digits
  and 1000, 60000 or 3600000, which is the digits' value times that multiplier
  wherever the product is at most \<open>2 ^ 53\<close> (where the source's double arithmetic is
  exact); for every other string, the empty one included, it returns the default
  3600000 instead of rejecting; and \<open>scheduleCleanup\<close> registers a timer with the
  delay \<open>parseDuration\<close> returns, for every duration string.
\<close>

theorem parseDuration_spec:
  "(value \<noteq> [] \<and> list_all isDigit value \<and>
      (unit, m) \<in> {(CHR ''s'', 1000), (CHR ''m'', 60000), (CHR ''h'', 3600000)}
      \<longrightarrow> parseDuration (value @ [unit]) = times (parseInt value) (Num m)
          \<and> (decimal value * m \<le> 9007199254740992
               \<longrightarrow> parseDuration (value @ [unit]) = Num (decimal value * m)))
   \<and> ((\<nexists>v u. duration = v @ [u] \<and> v \<noteq> [] \<and> list_all isDigit v
             \<and> u \<in> {CHR ''h'', CHR ''m'', CHR ''s''})
      \<longrightarrow> parseDuration duration = Num 3600000)
   \<and> (\<exists>n. parseDuration duration = n \<and>
          scheduleCleanup service duration timers = timers @ [\<lparr>delay = n, target = service\<rparr>])"
proof (intro conjI impI)
  assume h: "value \<noteq> [] \<and> list_all isDigit value \<and>
      (unit, m) \<in> {(CHR ''s'', 1000), (CHR ''m'', 60000), (CHR ''h'', 3600000)}"
  then have u: "unit \<in> {CHR ''h'', CHR ''m'', CHR ''s''}" by auto
  have md: "matchDuration (value @ [unit]) = Some (value, unit)"
    using h u matchDuration_digits by blast
  have mu: "multipliers unit = Num m" and mpos: "0 < m"
    using h by (auto simp: multipliers_def)
  show p: "parseDuration (value @ [unit]) = times (parseInt value) (Num m)"
    by (simp add: parseDuration_def md mu)
  assume "decimal value * m \<le> 9007199254740992"
  then have "times (parseInt value) (Num m) = Num (decimal value * m)"
    unfolding parseInt_def using mpos times_exact by blast
  with p show "parseDuration (value @ [unit]) = Num (decimal value * m)"
    by simp
next
  assume nm: "\<nexists>v u. duration = v @ [u] \<and> v \<noteq> [] \<and> list_all isDigit v
             \<and> u \<in> {CHR ''h'', CHR ''m'', CHR ''s''}"
  have "matchDuration duration = None"
  proof (cases "matchDuration duration")
    case None then show ?thesis .
  next
    case (Some p)
    obtain v u where "p = (v, u)" by (cases p)
    with Some matchDuration_Some nm show ?thesis by blast
  qed
  then show "parseDuration duration = Num 3600000"
    by (simp add: parseDuration_def)
next
  show "\<exists>n. parseDuration duration = n \<and>
          scheduleCleanup service duration timers = timers @ [\<lparr>delay = n, target = service\<rparr>]"
    by (simp add: scheduleCleanup_def)
qed

lemma decimal_30: "decimal ''30'' = 30"
  by (simp add: decimal_def digitValue_def)

theorem parseDuration_spec_witness:
  "parseDuration ''30m'' = Num 1800000 \<and> parseDuration ''10x'' = Num 3600000
   \<and> parseDuration [] = Num 3600000
   \<and> scheduleCleanup ''api'' ''10x'' [] = [\<lparr>delay = Num 3600000, target = ''api''\<rparr>]"
proof -
  have d: "list_all isDigit ''30''" by (simp add: isDigit_def)
  have nm: "\<nexists>v u. ''10x'' = v @ [u] \<and> v \<noteq> [] \<and> list_all isDigit v
             \<and> u \<in> {CHR ''h'', CHR ''m'', CHR ''s''}"
    by (auto simp: append_eq_Cons_conv Cons_eq_append_conv)
  have ne: "\<nexists>v u. ([] :: string) = v @ [u] \<and> v \<noteq> [] \<and> list_all isDigit v
             \<and> u \<in> {CHR ''h'', CHR ''m'', CHR ''s''}"
    by simp
  have a: "parseDuration ''30m'' = Num 1800000"
    using parseDuration_spec [of "''30''" "CHR ''m''" 60000 "''10x''" "''api''" "[]"] d
    by (simp add: decimal_30 parseInt_def toNumber_def)
  have b: "parseDuration ''10x'' = Num 3600000"
    using parseDuration_spec [of "''30''" "CHR ''m''" 60000 "''10x''" "''api''" "[]"] nm
    by blast
  have c: "scheduleCleanup ''api'' ''10x'' [] = [\<lparr>delay = Num 3600000, target = ''api''\<rparr>]"
    using parseDuration_spec [of "''30''" "CHR ''m''" 60000 "''10x''" "''api''" "[]"] b
    by simp
  have e: "parseDuration [] = Num 3600000"
    using parseDuration_spec [of "''30''" "CHR ''m''" 60000 "[]" "''api''" "[]"] ne
    by blast
  from a b c e show ?thesis by blast
qed

section \<open>Properties of the store and of runs without commands\<close>

lemma showNat_digit: "n < 10 \<Longrightarrow> showNat n = [digitChar n]"
  by (simp add: showNat.simps)

lemmas store_eval =
  save_def saveWorkflow_def emptyStore_def plainOptions_def entries_def showNat_digit digitChar_def
  getWorkflow_def workflow_row.extend_def workflow.fields_def Let_def quiet_def

text \<open>
  Claim C4. The claim is that a save with an empty command list is rejected and that no
  workflow with zero commands is ever persisted. The guard of \<open>save\<close> tests
  \<open>!commands\<close>, which is false for the empty array: the save succeeds, reports
  "saved with 0 commands", and the stored workflow is fetched back with no commands.
\<close>

theorem save_empty_array_persisted:
  "save emptyStore 1 ''w'' (Array []) plainOptions =
     (\<lparr>workflows = [\<lparr>wf_id = 1, wf_name = ''w'', wf_description = [], wf_parallel = False,
                      wf_continue_on_error = False, wf_variables = [], wf_execution_count = 0,
                      wf_created_at = 1, wf_updated_at = 1, wf_last_executed = None\<rparr>],
       workflow_commands = [], workflows_seq = 1\<rparr>,
      \<lparr>success = True, message = ''Workflow '' @ [apostrophe] @ ''w'' @ [apostrophe] @ '' saved with 0 commands''\<rparr>)
   \<and> (case getWorkflow (fst (save emptyStore 1 ''w'' (Array []) plainOptions)) 2 ''w'' of
         (db, Some flow) \<Rightarrow> wf_commands flow = []
       | (db, None) \<Rightarrow> False)"
  by (simp add: store_eval)

text \<open>
  Claim C5, as the code has it. \<open>execute\<close> has no check for an empty command list: for
  a stored workflow without commands it launches nothing and returns a result with
  \<open>success = true\<close> and the message "Workflow completed successfully", in both modes.
\<close>

theorem execute_empty_workflow:
  assumes "getWorkflow db now name = (db1, Some flow)" and "wf_commands flow = []"
  shows "\<exists>w1. execute wording finish proc now name vars db w =
           (db1, w1, Inr \<lparr>success = True, message = ''Workflow completed successfully''\<rparr>)
         \<and> launched w1 = launched w"
  using assms by (simp add: execute_def parallelRun_def settleAll_def Let_def)

theorem execute_empty_workflow_witness:
  "\<exists>w1. execute v8Wording inOrder allExit 2 ''w'' [] (fst (save emptyStore 1 ''w'' (Array []) plainOptions)) quiet =
           (fst (getWorkflow (fst (save emptyStore 1 ''w'' (Array []) plainOptions)) 2 ''w''), w1,
            Inr \<lparr>success = True, message = ''Workflow completed successfully''\<rparr>)
         \<and> launched w1 = launched quiet"
proof -
  obtain flow where f: "getWorkflow (fst (save emptyStore 1 ''w'' (Array []) plainOptions)) 2 ''w''
      = (fst (getWorkflow (fst (save emptyStore 1 ''w'' (Array []) plainOptions)) 2 ''w''), Some flow)"
    and c: "wf_commands flow = []"
    by (simp add: store_eval)
  show ?thesis
    using execute_empty_workflow [OF f c] by simp
qed

text \<open>
  Claim C5 as stated fails: the run of a stored workflow with no commands does complete
  as a successful run.
\<close>

theorem execute_empty_workflow_succeeds:
  "snd (snd (execute v8Wording inOrder allExit 2 ''w'' [] (fst (save emptyStore 1 ''w'' (Array []) plainOptions)) quiet))
     = Inr \<lparr>success = True, message = ''Workflow completed successfully''\<rparr>"
  by (simp add: store_eval execute_def)

lemma execute_store: "fst (execute wording finish proc now name vars db w) = fst (getWorkflow db now name)"
  by (cases "getWorkflow db now name")
     (auto simp: execute_def Let_def split: option.splits prod.splits)

lemma getWorkflow_commands_kept:
  "workflow_commands (fst (getWorkflow db now name)) = workflow_commands db"
  by (simp add: getWorkflow_def Let_def split: option.splits)

lemma other_rows_kept:
  "filter (\<lambda>r. wf_id r \<noteq> i)
     (map (\<lambda>r. if wf_id r = i
                then r\<lparr>wf_execution_count := wf_execution_count r + 1,
                       wf_last_executed := Some now\<rparr>
                else r) rows)
   = filter (\<lambda>r. wf_id r \<noteq> i) rows"
  by (induction rows) auto

lemma find_name_update:
  assumes "find (\<lambda>r. wf_name r = name) rows = Some row"
  shows "find (\<lambda>r. wf_name r = name)
           (map (\<lambda>r. if wf_id r = wf_id row
                      then r\<lparr>wf_execution_count := wf_execution_count r + 1,
                             wf_last_executed := Some now\<rparr>
                      else r) rows)
         = Some (row\<lparr>wf_execution_count := wf_execution_count row + 1,
                      wf_last_executed := Some now\<rparr>)"
  using assms by (induction rows) (auto split: if_splits)

text \<open>
  Claim C6, as the code has it. The execution statistics are written by the fetch,
  \<open>Database.getWorkflow\<close>, which \<open>execute\<close> calls before it runs anything: whatever the
  commands do, the store after \<open>execute\<close> is the store right after the fetch. The fetch
  leaves the command rows and the id sequence alone, writes nothing when no workflow
  has the name, and otherwise adds one to \<open>execution_count\<close> and sets
  \<open>last_executed\<close> on the row it found, leaving the rows with another id as they
  were. \<open>execute\<close> writes nothing else.
\<close>

theorem execute_writes_statistics:
  "fst (execute wording finish proc now name vars db w) = fst (getWorkflow db now name)
   \<and> workflow_commands (fst (execute wording finish proc now name vars db w)) = workflow_commands db
   \<and> workflows_seq (fst (execute wording finish proc now name vars db w)) = workflows_seq db
   \<and> (find (\<lambda>r. wf_name r = name) (workflows db) = None
        \<longrightarrow> fst (getWorkflow db now name) = db)
   \<and> (\<forall>row. find (\<lambda>r. wf_name r = name) (workflows db) = Some row \<longrightarrow>
         find (\<lambda>r. wf_name r = name) (workflows (fst (getWorkflow db now name)))
           = Some (row\<lparr>wf_execution_count := wf_execution_count row + 1,
                        wf_last_executed := Some now\<rparr>)
         \<and> filter (\<lambda>r. wf_id r \<noteq> wf_id row) (workflows (fst (getWorkflow db now name)))
           = filter (\<lambda>r. wf_id r \<noteq> wf_id row) (workflows db))"
proof (intro conjI impI allI)
  show "fst (execute wording finish proc now name vars db w) = fst (getWorkflow db now name)"
    by (rule execute_store)
  show "workflow_commands (fst (execute wording finish proc now name vars db w)) = workflow_commands db"
    by (simp add: execute_store getWorkflow_commands_kept)
  show "workflows_seq (fst (execute wording finish proc now name vars db w)) = workflows_seq db"
    by (simp add: execute_store getWorkflow_def Let_def split: option.splits)
next
  assume "find (\<lambda>r. wf_name r = name) (workflows db) = None"
  then show "fst (getWorkflow db now name) = db"
    by (simp add: getWorkflow_def)
next
  fix row
  assume f: "find (\<lambda>r. wf_name r = name) (workflows db) = Some row"
  show "find (\<lambda>r. wf_name r = name) (workflows (fst (getWorkflow db now name)))
           = Some (row\<lparr>wf_execution_count := wf_execution_count row + 1,
                        wf_last_executed := Some now\<rparr>)"
    using f find_name_update [OF f, of now] by (simp add: getWorkflow_def Let_def)
  show "filter (\<lambda>r. wf_id r \<noteq> wf_id row) (workflows (fst (getWorkflow db now name)))
           = filter (\<lambda>r. wf_id r \<noteq> wf_id row) (workflows db)"
    using f by (simp add: getWorkflow_def Let_def other_rows_kept)
qed

lemma oneCommandStore_eq:
  "oneCommandStore =
     \<lparr>workflows = [\<lparr>wf_id = 1, wf_name = ''w'', wf_description = [], wf_parallel = False,
                      wf_continue_on_error = False, wf_variables = [], wf_execution_count = 0,
                      wf_created_at = 1, wf_updated_at = 1, wf_last_executed = None\<rparr>],
       workflow_commands = [\<lparr>wc_workflow_id = 1, wc_command = ''true'', wc_order_index = 0\<rparr>],
       workflows_seq = 1\<rparr>"
  by (simp add: oneCommandStore_def store_eval enumerate_eq_zip)

theorem execute_writes_statistics_witness:
  "map wf_execution_count (workflows (fst (execute v8Wording inOrder allExit 2 ''w'' [] oneCommandStore quiet))) = [1]
   \<and> map wf_last_executed (workflows (fst (execute v8Wording inOrder allExit 2 ''w'' [] oneCommandStore quiet))) = [Some 2]
   \<and> fst (execute v8Wording inOrder allExit 2 ''absent'' [] oneCommandStore quiet) = oneCommandStore"
proof -
  let ?row = "\<lparr>wf_id = 1, wf_name = ''w'', wf_description = [], wf_parallel = False,
                wf_continue_on_error = False, wf_variables = [], wf_execution_count = 0,
                wf_created_at = 1, wf_updated_at = 1, wf_last_executed = None\<rparr>"
  have f: "find (\<lambda>r. wf_name r = ''w'') (workflows oneCommandStore) = Some ?row"
    by (simp add: oneCommandStore_eq)
  have n: "find (\<lambda>r. wf_name r = ''absent'') (workflows oneCommandStore) = None"
    by (simp add: oneCommandStore_eq)
  have len: "length (workflows (fst (getWorkflow oneCommandStore 2 ''w''))) = 1"
    by (simp add: oneCommandStore_eq getWorkflow_def Let_def)
  note fact = execute_writes_statistics [of v8Wording inOrder allExit 2 "''w''" "[]" oneCommandStore quiet]
  from fact have e: "fst (execute v8Wording inOrder allExit 2 ''w'' [] oneCommandStore quiet)
              = fst (getWorkflow oneCommandStore 2 ''w'')"
    by blast
  from fact f have r: "find (\<lambda>r. wf_name r = ''w'')
        (workflows (fst (getWorkflow oneCommandStore 2 ''w'')))
      = Some (?row\<lparr>wf_execution_count := wf_execution_count ?row + 1,
                      wf_last_executed := Some 2\<rparr>)"
    by blast
  from len obtain x where x: "workflows (fst (getWorkflow oneCommandStore 2 ''w'')) = [x]"
    by (cases "workflows (fst (getWorkflow oneCommandStore 2 ''w''))") auto
  with r have "x = ?row\<lparr>wf_execution_count := wf_execution_count ?row + 1,
                          wf_last_executed := Some 2\<rparr>"
    by (auto split: if_splits)
  with x e have a: "map wf_execution_count
        (workflows (fst (execute v8Wording inOrder allExit 2 ''w'' [] oneCommandStore quiet))) = [1]"
    and b: "map wf_last_executed
        (workflows (fst (execute v8Wording inOrder allExit 2 ''w'' [] oneCommandStore quiet))) = [Some 2]"
    by simp_all
  have c: "fst (execute v8Wording inOrder allExit 2 ''absent'' [] oneCommandStore quiet) = oneCommandStore"
    using execute_writes_statistics [of v8Wording inOrder allExit 2 "''absent''" "[]" oneCommandStore quiet] n
    by simp
  from a b c show ?thesis by simp
qed

text \<open>
  Claim C6 as stated fails: the fetch itself increments the execution count, so the
  store has changed when \<open>execute\<close> returns.
\<close>

theorem fetch_writes_statistics:
  "map wf_execution_count (workflows oneCommandStore) = [0]
   \<and> map wf_execution_count (workflows (fst (getWorkflow oneCommandStore 2 ''w''))) = [1]
   \<and> fst (execute v8Wording inOrder allExit 2 ''w'' [] oneCommandStore quiet) \<noteq> oneCommandStore"
  by (simp add: oneCommandStore_eq getWorkflow_def Let_def execute_store)

section \<open>Properties of runs\<close>

lemma executeCommand_fails:
  assumes "fails (proc i c)"
  shows "\<exists>err. executeCommand proc i c w = (w\<lparr>launched := launched w @ [c]\<rparr>, Inl err)"
  using assms by (cases "proc i c") (auto simp: executeCommand_def Let_def)

lemma executeCommand_exits:
  assumes "\<not> fails (proc i c)"
  shows "\<exists>w1 out. executeCommand proc i c w = (w1, Inr out)
           \<and> launched w1 = launched w @ [c] \<and> outcomes w1 = outcomes w"
  using assms by (cases "proc i c") (auto simp: executeCommand_def Let_def outcomes_def)

lemma map_upt_Suc_shift: "map f [0..<Suc n] = f 0 # map (\<lambda>j. f (Suc j)) [0..<n]"
  by (simp add: upt_conv_Cons map_Suc_upt [symmetric] del: upt_Suc)

lemma sequential_halts:
  assumes "k < length cmds"
    and "\<forall>j\<le>k. replaceVariables (cmds ! j) vars = Inr (r j)"
    and "\<forall>j<k. \<not> fails (proc (i + j) (r j))"
    and "fails (proc (i + k) (r k))"
  shows "\<exists>w1. sequential proc vars False len i cmds failed w =
            (w1, Inr \<lparr>success = False,
                      message = ''Workflow failed at command '' @ showNat (i + k + 1)\<rparr>)
          \<and> launched w1 = launched w @ map r [0..<Suc k]
          \<and> outcomes w1 = outcomes w
               @ map (\<lambda>j. SpinnerSucceed (progress (i + j) len (r j))) [0..<k]
               @ [SpinnerFail (progress (i + k) len (r k))]"
  using assms
proof (induction cmds arbitrary: k r i w)
  case Nil
  then show ?case by simp
next
  case (Cons c cs)
  from Cons.prems(2) have r0: "replaceVariables c vars = Inr (r 0)"
    by auto
  show ?case
  proof (cases k)
    case 0
    with Cons.prems(4) have "fails (proc i (r 0))" by simp
    with executeCommand_fails [of proc i "r 0" w]
    obtain err where "executeCommand proc i (r 0) w = (w\<lparr>launched := launched w @ [r 0]\<rparr>, Inl err)"
      by blast
    with r0 0 show ?thesis
      by (simp add: outcomes_def Let_def)
  next
    case (Suc k')
    with Cons.prems(3) have "\<not> fails (proc i (r 0))" by force
    with executeCommand_exits [of proc i "r 0" w]
    obtain w1 out where e: "executeCommand proc i (r 0) w = (w1, Inr out)"
      and l: "launched w1 = launched w @ [r 0]" and o: "outcomes w1 = outcomes w"
      by blast
    let ?w2 = "w1\<lparr>console := console w1 @ [SpinnerSucceed (progress i len (r 0))]\<rparr>"
    have p1: "k' < length cs" using Cons.prems(1) Suc by simp
    have p2: "\<forall>j\<le>k'. replaceVariables (cs ! j) vars = Inr (r (Suc j))"
      using Cons.prems(2) Suc by auto
    have p3: "\<forall>j<k'. \<not> fails (proc (Suc i + j) (r (Suc j)))"
      using Cons.prems(3) Suc by auto
    have p4: "fails (proc (Suc i + k') (r (Suc k')))"
      using Cons.prems(4) Suc by simp
    from Cons.IH [OF p1 p2 p3 p4, of ?w2]
    obtain w3 where s: "sequential proc vars False len (Suc i) cs failed ?w2 =
            (w3, Inr \<lparr>success = False,
                      message = ''Workflow failed at command '' @ showNat (Suc i + k' + 1)\<rparr>)"
      and l3: "launched w3 = launched ?w2 @ map (\<lambda>j. r (Suc j)) [0..<Suc k']"
      and o3: "outcomes w3 = outcomes ?w2
               @ map (\<lambda>j. SpinnerSucceed (progress (Suc i + j) len (r (Suc j)))) [0..<k']
               @ [SpinnerFail (progress (Suc i + k') len (r (Suc k')))]"
      by blast
    have o2: "outcomes ?w2 = outcomes w @ [SpinnerSucceed (progress i len (r 0))]"
      using o by (simp add: outcomes_def)
    have m1: "map r [0..<Suc (Suc k')] = r 0 # map (\<lambda>j. r (Suc j)) [0..<Suc k']"
      by (rule map_upt_Suc_shift)
    have m2: "map (\<lambda>j. SpinnerSucceed (progress (i + j) len (r j))) [0..<Suc k']
        = SpinnerSucceed (progress i len (r 0))
          # map (\<lambda>j. SpinnerSucceed (progress (Suc i + j) len (r (Suc j)))) [0..<k']"
      using map_upt_Suc_shift [of "\<lambda>j. SpinnerSucceed (progress (i + j) len (r j))" k']
      by simp
    have "sequential proc vars False len i (c # cs) failed w =
            (w3, Inr \<lparr>success = False,
                      message = ''Workflow failed at command '' @ showNat (i + k + 1)\<rparr>)"
      using r0 e s Suc by simp
    moreover have "launched w3 = launched w @ map r [0..<Suc k]"
      using l3 l Suc m1 by simp
    moreover have "outcomes w3 = outcomes w
               @ map (\<lambda>j. SpinnerSucceed (progress (i + j) len (r j))) [0..<k]
               @ [SpinnerFail (progress (i + k) len (r k))]"
      using o3 o2 Suc m2 by simp
    ultimately show ?thesis by blast
  qed
qed

lemmas subst_eval =
  replaceVariables_def entries_def isArrayIndex_def isDigit_def decimal_def digitValue_def
  RegExp_def bracedPattern_def barePattern_def
  backslash_def isSyntaxCharacter_def isLineTerminator_def replace_def replaceScan.simps

lemma getWorkflow_deployStore:
  "\<exists>db1. getWorkflow (deployStore opts) 2 ''deploy'' = (db1, Some (deployFlow opts))"
  by (simp add: deployStore_def deployFlow_def threeCommands_def store_eval enumerate_eq_zip
      isArrayIndex_def)

lemma staging_variables:
  "spread (spread [] (wf_variables (deployFlow stagingOptions))) [] = [(''env'', ''staging'')]"
  by (simp add: deployFlow_def stagingOptions_def spread_def setProperty_def entries_def
      isArrayIndex_def isDigit_def)

lemma staging_resolved:
  "replaceVariables (threeCommands ! 0) [(''env'', ''staging'')] = Inr (resolvedStaging 0)"
  "replaceVariables (threeCommands ! 1) [(''env'', ''staging'')] = Inr (resolvedStaging 1)"
  "replaceVariables (threeCommands ! 2) [(''env'', ''staging'')] = Inr (resolvedStaging 2)"
  by (simp_all add: threeCommands_def resolvedStaging_def subst_eval)

text \<open>
  Claim C1. In sequential mode with \<open>continueOnError = false\<close>, when the commands up to
  position \<open>k\<close> resolve, those before \<open>k\<close> succeed and the one at \<open>k\<close> fails, the run
  has launched exactly the commands at positions \<open>0..k\<close>, has recorded a success line
  for each position before \<open>k\<close> and the failure line for \<open>k\<close> and no other outcome, and
  returns from inside the loop the failure result that names position \<open>k + 1\<close>:
  \<open>success = false\<close>, "Workflow failed at command k+1". No command after \<open>k\<close> is
  launched. For \<open>[A, B, C]\<close> with A failing, the only outcome is A's failure and only A
  is launched. The result object of the code has no outcome list and no halted flag:
  the outcome lines on the console are the recorded outcomes, and the failure result
  of the early return is the halted and failed status.
\<close>

theorem sequential_halt_on_failure:
  assumes "getWorkflow db now name = (db1, Some flow)"
    and "\<not> wf_parallel flow" and "\<not> wf_continue_on_error flow"
    and "k < length (wf_commands flow)"
    and "\<forall>j\<le>k. replaceVariables (wf_commands flow ! j)
                  (spread (spread [] (wf_variables flow)) vars) = Inr (r j)"
    and "\<forall>j<k. \<not> fails (proc j (r j))"
    and "fails (proc k (r k))"
  shows "\<exists>w1. execute wording finish proc now name vars db w =
           (db1, w1, Inr \<lparr>success = False,
                          message = ''Workflow failed at command '' @ showNat (k + 1)\<rparr>)
         \<and> launched w1 = launched w @ map r [0..<Suc k]
         \<and> outcomes w1 = outcomes w
              @ map (\<lambda>j. SpinnerSucceed (progress j (length (wf_commands flow)) (r j))) [0..<k]
              @ [SpinnerFail (progress k (length (wf_commands flow)) (r k))]"
proof -
  let ?w0 = "w\<lparr>console := console w @ [ConsoleLog (CHR 0x0A # ''Executing workflow: '' @ name)]\<rparr>"
  have p3: "\<forall>j<k. \<not> fails (proc (0 + j) (r j))" using assms(6) by simp
  have p4: "fails (proc (0 + k) (r k))" using assms(7) by simp
  from sequential_halts [OF assms(4) assms(5) p3 p4,
      of "length (wf_commands flow)" False ?w0]
  obtain w1 where s: "sequential proc (spread (spread [] (wf_variables flow)) vars) False
        (length (wf_commands flow)) 0 (wf_commands flow) False ?w0 =
        (w1, Inr \<lparr>success = False,
                  message = ''Workflow failed at command '' @ showNat (0 + k + 1)\<rparr>)"
    and l: "launched w1 = launched ?w0 @ map r [0..<Suc k]"
    and o: "outcomes w1 = outcomes ?w0
              @ map (\<lambda>j. SpinnerSucceed (progress (0 + j) (length (wf_commands flow)) (r j))) [0..<k]
              @ [SpinnerFail (progress (0 + k) (length (wf_commands flow)) (r k))]"
    by blast
  have "execute wording finish proc now name vars db w =
           (db1, w1, Inr \<lparr>success = False,
                          message = ''Workflow failed at command '' @ showNat (k + 1)\<rparr>)"
    using assms(1,2,3) s by (simp add: execute_def Let_def)
  moreover have "launched w1 = launched w @ map r [0..<Suc k]"
    using l by simp
  moreover have "outcomes w1 = outcomes w
              @ map (\<lambda>j. SpinnerSucceed (progress j (length (wf_commands flow)) (r j))) [0..<k]
              @ [SpinnerFail (progress k (length (wf_commands flow)) (r k))]"
    using o by (simp add: outcomes_def)
  ultimately show ?thesis by blast
qed

theorem sequential_halt_on_failure_witness:
  "\<exists>db1 w1. execute v8Wording inOrder (failsAt 0) 2 ''deploy'' [] (deployStore stagingOptions) quiet =
           (db1, w1, Inr \<lparr>success = False, message = ''Workflow failed at command 1''\<rparr>)
         \<and> launched w1 = [''echo build:staging'']
         \<and> outcomes w1 = [SpinnerFail ''[1/3] echo build:staging'']"
proof -
  obtain db1 where g: "getWorkflow (deployStore stagingOptions) 2 ''deploy''
      = (db1, Some (deployFlow stagingOptions))"
    using getWorkflow_deployStore by blast
  have a2: "\<not> wf_parallel (deployFlow stagingOptions)"
    and a3: "\<not> wf_continue_on_error (deployFlow stagingOptions)"
    and a4: "0 < length (wf_commands (deployFlow stagingOptions))"
    by (simp_all add: deployFlow_def stagingOptions_def threeCommands_def)
  have c: "wf_commands (deployFlow stagingOptions) = threeCommands"
    by (simp add: deployFlow_def)
  have a5: "\<forall>j\<le>0. replaceVariables (wf_commands (deployFlow stagingOptions) ! j)
                  (spread (spread [] (wf_variables (deployFlow stagingOptions))) [])
                = Inr (resolvedStaging j)"
    using staging_resolved(1) by (simp add: staging_variables c)
  have a6: "\<forall>j<0. \<not> fails (failsAt 0 j (resolvedStaging j))" by simp
  have a7: "fails (failsAt 0 0 (resolvedStaging 0))" by (simp add: failsAt_def)
  from sequential_halt_on_failure
    [where r = resolvedStaging and proc = "failsAt 0" and w = quiet and wording = v8Wording
       and finish = inOrder, OF g a2 a3 a4 a5 a6 a7]
  have "\<exists>w1. execute v8Wording inOrder (failsAt 0) 2 ''deploy'' [] (deployStore stagingOptions) quiet =
           (db1, w1, Inr \<lparr>success = False, message = ''Workflow failed at command 1''\<rparr>)
         \<and> launched w1 = [''echo build:staging'']
         \<and> outcomes w1 = [SpinnerFail ''[1/3] echo build:staging'']"
    by (simp add: c threeCommands_def resolvedStaging_def quiet_def outcomes_def progress_def
        showNat_digit digitChar_def)
  then show ?thesis by blast
qed

lemma sequential_continues:
  assumes "\<forall>j<length cmds. replaceVariables (cmds ! j) vars = Inr (r j)"
  shows "\<exists>w1. sequential proc vars True len i cmds failed w =
            (w1, Inr \<lparr>success = True,
                      message = (if failed \<or> (\<exists>j<length cmds. fails (proc (i + j) (r j)))
                                 then ''Workflow completed with errors''
                                 else ''Workflow completed successfully'')\<rparr>)
          \<and> launched w1 = launched w @ map r [0..<length cmds]
          \<and> outcomes w1 = outcomes w
               @ map (\<lambda>j. if fails (proc (i + j) (r j))
                          then SpinnerFail (progress (i + j) len (r j))
                          else SpinnerSucceed (progress (i + j) len (r j))) [0..<length cmds]
          \<and> last (console w1) =
               (if failed \<or> (\<exists>j<length cmds. fails (proc (i + j) (r j)))
                then ConsoleMark WarningSign ''Workflow completed with errors''
                else ConsoleMark CheckMark ''Workflow completed successfully'')"
  using assms
proof (induction cmds arbitrary: r i w failed)
  case Nil
  then show ?case by (simp add: outcomes_def)
next
  case (Cons c cs)
  from Cons.prems have r0: "replaceVariables c vars = Inr (r 0)"
    by auto
  have p: "\<forall>j<length cs. replaceVariables (cs ! j) vars = Inr (r (Suc j))"
    using Cons.prems by auto
  let ?line = "\<lambda>j. if fails (proc (i + j) (r j))
                          then SpinnerFail (progress (i + j) len (r j))
                          else SpinnerSucceed (progress (i + j) len (r j))"
  have m1: "map r [0..<length (c # cs)] = r 0 # map (\<lambda>j. r (Suc j)) [0..<length cs]"
    using map_upt_Suc_shift [of r "length cs"] by simp
  have m2: "map ?line [0..<length (c # cs)]
      = ?line 0 # map (\<lambda>j. if fails (proc (Suc i + j) (r (Suc j)))
                          then SpinnerFail (progress (Suc i + j) len (r (Suc j)))
                          else SpinnerSucceed (progress (Suc i + j) len (r (Suc j))))
                    [0..<length cs]"
    using map_upt_Suc_shift [of ?line "length cs"] by simp
  have ex: "(\<exists>j<length (c # cs). fails (proc (i + j) (r j)))
      = (fails (proc i (r 0)) \<or> (\<exists>j<length cs. fails (proc (Suc i + j) (r (Suc j)))))"
    by (auto simp: less_Suc_eq_0_disj)
  show ?case
  proof (cases "fails (proc i (r 0))")
    case True
    with executeCommand_fails [of proc i "r 0" w]
    obtain err where e: "executeCommand proc i (r 0) w
        = (w\<lparr>launched := launched w @ [r 0]\<rparr>, Inl err)"
      by blast
    let ?w2 = "w\<lparr>launched := launched w @ [r 0],
                  console := console w @ [SpinnerFail (progress i len (r 0)),
                                          ConsoleLog (''  Error: '' @ err),
                                          ConsoleLog ''  Continuing despite error...'']\<rparr>"
    from Cons.IH [OF p, of "Suc i" True ?w2]
    obtain w3 where s: "sequential proc vars True len (Suc i) cs True ?w2 =
            (w3, Inr \<lparr>success = True, message = ''Workflow completed with errors''\<rparr>)"
      and l3: "launched w3 = launched ?w2 @ map (\<lambda>j. r (Suc j)) [0..<length cs]"
      and o3: "outcomes w3 = outcomes ?w2
               @ map (\<lambda>j. if fails (proc (Suc i + j) (r (Suc j)))
                          then SpinnerFail (progress (Suc i + j) len (r (Suc j)))
                          else SpinnerSucceed (progress (Suc i + j) len (r (Suc j))))
                   [0..<length cs]"
      and c3: "last (console w3) = ConsoleMark WarningSign ''Workflow completed with errors''"
      by auto
    have o2: "outcomes ?w2 = outcomes w @ [SpinnerFail (progress i len (r 0))]"
      by (simp add: outcomes_def)
    have "sequential proc vars True len i (c # cs) failed w =
            (w3, Inr \<lparr>success = True,
                      message = (if failed \<or> (\<exists>j<length (c # cs). fails (proc (i + j) (r j)))
                                 then ''Workflow completed with errors''
                                 else ''Workflow completed successfully'')\<rparr>)"
      using r0 e s True unfolding ex by (simp add: Let_def)
    moreover have "launched w3 = launched w @ map r [0..<length (c # cs)]"
      unfolding m1 using l3 by simp
    moreover have "outcomes w3 = outcomes w @ map ?line [0..<length (c # cs)]"
      unfolding m2 using o3 o2 True by simp
    moreover have "last (console w3) =
               (if failed \<or> (\<exists>j<length (c # cs). fails (proc (i + j) (r j)))
                then ConsoleMark WarningSign ''Workflow completed with errors''
                else ConsoleMark CheckMark ''Workflow completed successfully'')"
      unfolding ex using c3 True by simp
    ultimately show ?thesis by blast
  next
    case False
    with executeCommand_exits [of proc i "r 0" w]
    obtain w1 out where e: "executeCommand proc i (r 0) w = (w1, Inr out)"
      and l: "launched w1 = launched w @ [r 0]" and o: "outcomes w1 = outcomes w"
      by blast
    let ?w2 = "w1\<lparr>console := console w1 @ [SpinnerSucceed (progress i len (r 0))]\<rparr>"
    from Cons.IH [OF p, of "Suc i" failed ?w2]
    obtain w3 where s: "sequential proc vars True len (Suc i) cs failed ?w2 =
            (w3, Inr \<lparr>success = True,
                      message = (if failed \<or> (\<exists>j<length cs. fails (proc (Suc i + j) (r (Suc j))))
                                 then ''Workflow completed with errors''
                                 else ''Workflow completed successfully'')\<rparr>)"
      and l3: "launched w3 = launched ?w2 @ map (\<lambda>j. r (Suc j)) [0..<length cs]"
      and o3: "outcomes w3 = outcomes ?w2
               @ map (\<lambda>j. if fails (proc (Suc i + j) (r (Suc j)))
                          then SpinnerFail (progress (Suc i + j) len (r (Suc j)))
                          else SpinnerSucceed (progress (Suc i + j) len (r (Suc j))))
                   [0..<length cs]"
      and c3: "last (console w3) =
               (if failed \<or> (\<exists>j<length cs. fails (proc (Suc i + j) (r (Suc j))))
                then ConsoleMark WarningSign ''Workflow completed with errors''
                else ConsoleMark CheckMark ''Workflow completed successfully'')"
      by blast
    have o2: "outcomes ?w2 = outcomes w @ [SpinnerSucceed (progress i len (r 0))]"
      using o by (simp add: outcomes_def)
    have "sequential proc vars True len i (c # cs) failed w =
            (w3, Inr \<lparr>success = True,
                      message = (if failed \<or> (\<exists>j<length (c # cs). fails (proc (i + j) (r j)))
                                 then ''Workflow completed with errors''
                                 else ''Workflow completed successfully'')\<rparr>)"
      using r0 e s False unfolding ex by simp
    moreover have "launched w3 = launched w @ map r [0..<length (c # cs)]"
      unfolding m1 using l3 l by simp
    moreover have "outcomes w3 = outcomes w @ map ?line [0..<length (c # cs)]"
      unfolding m2 using o3 o2 False by simp
    moreover have "last (console w3) =
               (if failed \<or> (\<exists>j<length (c # cs). fails (proc (i + j) (r j)))
                then ConsoleMark WarningSign ''Workflow completed with errors''
                else ConsoleMark CheckMark ''Workflow completed successfully'')"
      unfolding ex using c3 False by simp
    ultimately show ?thesis by blast
  qed
qed

text \<open>
  Claim C2, as the code has it. In sequential mode with \<open>continueOnError = true\<close>, when
  the commands resolve and at least one fails, every command is launched in order,
  there is one outcome line per command in order, the last line on the console is the
  warning "Workflow completed with errors", and the result is \<open>success = true\<close> with
  that message.
\<close>

theorem sequential_continue_after_failure:
  assumes "getWorkflow db now name = (db1, Some flow)"
    and "\<not> wf_parallel flow" and "wf_continue_on_error flow"
    and "\<forall>j<length (wf_commands flow). replaceVariables (wf_commands flow ! j)
                  (spread (spread [] (wf_variables flow)) vars) = Inr (r j)"
    and "k < length (wf_commands flow)" and "fails (proc k (r k))"
  shows "\<exists>w1. execute wording finish proc now name vars db w =
           (db1, w1, Inr \<lparr>success = True, message = ''Workflow completed with errors''\<rparr>)
         \<and> launched w1 = launched w @ map r [0..<length (wf_commands flow)]
         \<and> outcomes w1 = outcomes w
              @ map (outcomeLine proc (length (wf_commands flow)) r)
                  [0..<length (wf_commands flow)]
         \<and> last (console w1) = ConsoleMark WarningSign ''Workflow completed with errors''"
proof -
  let ?w0 = "w\<lparr>console := console w @ [ConsoleLog (CHR 0x0A # ''Executing workflow: '' @ name)]\<rparr>"
  let ?n = "length (wf_commands flow)"
  have ex: "\<exists>j<?n. fails (proc (0 + j) (r j))"
    using assms(5,6) by auto
  from sequential_continues [OF assms(4), of proc ?n 0 False ?w0] ex
  obtain w1 where s: "sequential proc (spread (spread [] (wf_variables flow)) vars) True
        ?n 0 (wf_commands flow) False ?w0 =
        (w1, Inr \<lparr>success = True, message = ''Workflow completed with errors''\<rparr>)"
    and l: "launched w1 = launched ?w0 @ map r [0..<?n]"
    and o: "outcomes w1 = outcomes ?w0
               @ map (\<lambda>j. if fails (proc (0 + j) (r j))
                          then SpinnerFail (progress (0 + j) ?n (r j))
                          else SpinnerSucceed (progress (0 + j) ?n (r j))) [0..<?n]"
    and c: "last (console w1) = ConsoleMark WarningSign ''Workflow completed with errors''"
    by auto
  have "execute wording finish proc now name vars db w =
           (db1, w1, Inr \<lparr>success = True, message = ''Workflow completed with errors''\<rparr>)"
    using assms(1,2,3) s by (simp add: execute_def Let_def)
  moreover have "launched w1 = launched w @ map r [0..<?n]"
    using l by simp
  moreover have "outcomes w1 = outcomes w @ map (outcomeLine proc ?n r) [0..<?n]"
    using o by (simp add: outcomes_def outcomeLine_def)
  ultimately show ?thesis using c by blast
qed

lemma continue_facts:
  "\<not> wf_parallel (deployFlow continueOptions)"
  "wf_continue_on_error (deployFlow continueOptions)"
  "wf_commands (deployFlow continueOptions) = threeCommands"
  "spread (spread [] (wf_variables (deployFlow continueOptions))) [] = [(''env'', ''staging'')]"
  by (simp_all add: deployFlow_def continueOptions_def stagingOptions_def spread_def
      setProperty_def entries_def isArrayIndex_def isDigit_def)

lemma staging_resolved_all:
  "\<forall>j<length threeCommands.
     replaceVariables (threeCommands ! j) [(''env'', ''staging'')] = Inr (resolvedStaging j)"
proof -
  have "length threeCommands = 3" by (simp add: threeCommands_def)
  moreover have "\<And>j::nat. j < 3 \<Longrightarrow> j = 0 \<or> j = 1 \<or> j = 2" by arith
  ultimately show ?thesis using staging_resolved by auto
qed

theorem sequential_continue_after_failure_witness:
  "\<exists>db1 w1. execute v8Wording inOrder (failsAt 1) 2 ''deploy'' [] (deployStore continueOptions) quiet =
           (db1, w1, Inr \<lparr>success = True, message = ''Workflow completed with errors''\<rparr>)
         \<and> launched w1 = [''echo build:staging'', ''echo push:staging'', ''true'']
         \<and> outcomes w1 = [SpinnerSucceed ''[1/3] echo build:staging'',
                           SpinnerFail ''[2/3] echo push:staging'',
                           SpinnerSucceed ''[3/3] true'']
         \<and> last (console w1) = ConsoleMark WarningSign ''Workflow completed with errors''"
proof -
  obtain db1 where g: "getWorkflow (deployStore continueOptions) 2 ''deploy''
      = (db1, Some (deployFlow continueOptions))"
    using getWorkflow_deployStore by blast
  have a4: "\<forall>j<length (wf_commands (deployFlow continueOptions)).
              replaceVariables (wf_commands (deployFlow continueOptions) ! j)
                  (spread (spread [] (wf_variables (deployFlow continueOptions))) [])
                = Inr (resolvedStaging j)"
    using staging_resolved_all by (simp add: continue_facts)
  have a5: "1 < length (wf_commands (deployFlow continueOptions))"
    by (simp add: continue_facts threeCommands_def)
  have a6: "fails (failsAt 1 1 (resolvedStaging 1))" by (simp add: failsAt_def)
  have u: "[0..<3] = [0, 1, 2]" by (simp add: upt_rec)
  from sequential_continue_after_failure
    [where r = resolvedStaging and proc = "failsAt 1"
       and w = quiet and wording = v8Wording and finish = inOrder,
     OF g continue_facts(1) continue_facts(2) a4 a5 a6]
  have "\<exists>w1. execute v8Wording inOrder (failsAt 1) 2 ''deploy'' [] (deployStore continueOptions) quiet =
           (db1, w1, Inr \<lparr>success = True, message = ''Workflow completed with errors''\<rparr>)
         \<and> launched w1 = [''echo build:staging'', ''echo push:staging'', ''true'']
         \<and> outcomes w1 = [SpinnerSucceed ''[1/3] echo build:staging'',
                           SpinnerFail ''[2/3] echo push:staging'',
                           SpinnerSucceed ''[3/3] true'']
         \<and> last (console w1) = ConsoleMark WarningSign ''Workflow completed with errors''"
    by (simp add: continue_facts threeCommands_def resolvedStaging_def quiet_def outcomes_def
        outcomeLine_def progress_def failsAt_def showNat_digit digitChar_def u)
  then show ?thesis by blast
qed

text \<open>
  Claim C2 as stated fails: for \<open>[A, B, C]\<close> with only B failing and
  \<open>continueOnError = true\<close> the run is reported with \<open>success = true\<close>.
\<close>

theorem continue_run_reports_success:
  "snd (snd (execute v8Wording inOrder (failsAt 1) 2 ''deploy'' [] (deployStore continueOptions) quiet))
     = Inr \<lparr>success = True, message = ''Workflow completed with errors''\<rparr>"
proof -
  obtain db1 where g: "getWorkflow (deployStore continueOptions) 2 ''deploy''
      = (db1, Some (deployFlow continueOptions))"
    using getWorkflow_deployStore by blast
  let ?w0 = "quiet\<lparr>console := console quiet
               @ [ConsoleLog (CHR 0x0A # ''Executing workflow: '' @ ''deploy'')]\<rparr>"
  have s: "snd (sequential (failsAt 1) [(''env'', ''staging'')] True (length threeCommands) 0
                  threeCommands False ?w0)
           = Inr \<lparr>success = True, message = ''Workflow completed with errors''\<rparr>"
    by (simp add: threeCommands_def subst_eval executeCommand_def failsAt_def Let_def)
  have "snd (snd (execute v8Wording inOrder (failsAt 1) 2 ''deploy'' [] (deployStore continueOptions) quiet))
        = snd (sequential (failsAt 1) [(''env'', ''staging'')] True (length threeCommands) 0
                  threeCommands False ?w0)"
    unfolding execute_def Let_def g by (simp add: continue_facts split: prod.splits)
  with s show ?thesis by simp
qed

lemma executeCommand_halves:
  "executeCommand proc i command w = settle (proc i command) (launch command w)"
  by (simp add: executeCommand_def settle_def launch_def Let_def split: process_result.splits)

lemma replaceEntries_fault:
  assumes "replaceEntries es s = Inl e"
  shows "replaceEntries es t = Inl e"
  using assms
proof (induction es arbitrary: s t)
  case Nil
  then show ?case by simp
next
  case (Cons x es)
  obtain k v where x: "x = (k, v)" by (cases x)
  from Cons.prems Cons.IH show ?case
    by (auto simp: x Let_def split: sum.splits)
qed

lemma launchAll_all:
  assumes "\<forall>j<length cmds. replaceVariables (cmds ! j) vars = Inr (r j)"
  shows "launchAll vars cmds w =
           (w\<lparr>launched := launched w @ map r [0..<length cmds]\<rparr>, Inr (map r [0..<length cmds]))"
  using assms
proof (induction cmds arbitrary: r w)
  case Nil
  then show ?case by simp
next
  case (Cons c cs)
  from Cons.prems have r0: "replaceVariables c vars = Inr (r 0)"
    by auto
  have p: "\<forall>j<length cs. replaceVariables (cs ! j) vars = Inr (r (Suc j))"
    using Cons.prems by auto
  have m1: "map r [0..<length (c # cs)] = r 0 # map (\<lambda>j. r (Suc j)) [0..<length cs]"
    using map_upt_Suc_shift [of r "length cs"] by simp
  show ?case
    unfolding m1 using r0 Cons.IH [OF p, of "launch (r 0) w"] by (simp add: launch_def)
qed

lemma launchAll_fault:
  assumes "j < length cmds" and "replaceVariables (cmds ! j) vars = Inl e"
  shows "launchAll vars cmds w = (w, Inl e)"
proof -
  from assms(1) obtain c cs where c: "cmds = c # cs"
    by (cases cmds) auto
  have "replaceVariables c vars = Inl e"
    using assms(2) replaceEntries_fault [of "entries vars" "cmds ! j" e c]
    by (simp add: replaceVariables_def)
  then show ?thesis by (simp add: c)
qed

lemma settle_facts:
  "console (fst (settle ended w)) = console w @ stdoutLines ended"
  "launched (fst (settle ended w)) = launched w"
  "snd (settle ended w) = settled ended"
  by (cases ended; simp add: settle_def)+

lemma settle_fold:
  "console (foldl (\<lambda>w1 p. fst (settle (f p) w1)) w ps)
     = console w @ concat (map (\<lambda>p. stdoutLines (f p)) ps)
   \<and> launched (foldl (\<lambda>w1 p. fst (settle (f p) w1)) w ps) = launched w"
  by (induction ps arbitrary: w) (simp_all add: settle_facts)

lemma settleAll_all:
  "\<exists>w1. settleAll proc finish (map r [0..<n]) w
           = (w1, map (\<lambda>j. settled (proc j (r j))) [0..<n])
        \<and> launched w1 = launched w
        \<and> console w1 = console w
            @ concat (map (\<lambda>p. stdoutLines (proc p (r p))) (sort_key finish [0..<n]))"
proof -
  have f: "foldl (\<lambda>w1 p. fst (settle (proc p (map r [0..<n] ! p)) w1)) w (sort_key finish [0..<n])
      = foldl (\<lambda>w1 p. fst (settle (proc p (r p)) w1)) w (sort_key finish [0..<n])"
    by (rule foldl_cong) simp_all
  have m: "map (\<lambda>p. snd (settle (proc p (map r [0..<n] ! p)) w)) [0..<n]
      = map (\<lambda>j. settled (proc j (r j))) [0..<n]"
    by (simp add: settle_facts)
  show ?thesis
    using settle_fold [of "\<lambda>p. proc p (r p)" w "sort_key finish [0..<n]"]
    by (simp add: settleAll_def f m)
qed

lemma rejected_settled:
  "rejected (map (\<lambda>j. settled (p j)) js) = map (\<lambda>j. reason (p j)) (filter (\<lambda>j. fails (p j)) js)"
proof (induction js)
  case Nil
  then show ?case by simp
next
  case (Cons j js)
  then show ?case by (cases "p j") simp_all
qed

lemma enumerate_map_lines:
  "map (\<lambda>(i, x). F i x) (enumerate n (map g xs)) = map (\<lambda>(i, j). F i (g j)) (enumerate n xs)"
  by (induction xs arbitrary: n) simp_all

lemma parallelRun_all:
  assumes "\<forall>j<length cmds. replaceVariables (cmds ! j) vars = Inr (r j)"
  shows "\<exists>w1. parallelRun wording finish proc vars cmds w =
            (w1, Inr (if failures proc r (length cmds) = 0
                      then \<lparr>success = True, message = ''Workflow completed successfully''\<rparr>
                      else \<lparr>success = False,
                            message = ''Workflow completed with ''
                                      @ showNat (failures proc r (length cmds)) @ '' failures''\<rparr>))
          \<and> launched w1 = launched w @ map r [0..<length cmds]
          \<and> console w1 = console w
              @ concat (map (\<lambda>p. stdoutLines (proc p (r p))) (sort_key finish [0..<length cmds]))
              @ summaryLines proc r (length cmds)"
proof -
  let ?n = "length cmds"
  let ?w1 = "w\<lparr>launched := launched w @ map r [0..<?n]\<rparr>"
  have la: "launchAll vars cmds w = (?w1, Inr (map r [0..<?n]))"
    using assms by (rule launchAll_all)
  from settleAll_all [of proc finish r ?n ?w1]
  obtain w2 where sa: "settleAll proc finish (map r [0..<?n]) ?w1
        = (w2, map (\<lambda>j. settled (proc j (r j))) [0..<?n])"
    and l2: "launched w2 = launched ?w1"
    and c2: "console w2 = console ?w1
            @ concat (map (\<lambda>p. stdoutLines (proc p (r p))) (sort_key finish [0..<?n]))"
    by blast
  have rj: "rejected (map (\<lambda>j. settled (proc j (r j))) [0..<?n])
      = map (\<lambda>j. reason (proc j (r j))) (failing proc r ?n)"
    unfolding failing_def by (rule rejected_settled)
  have n: "length (failing proc r ?n) = failures proc r ?n"
    by (simp add: failing_def failures_def)
  show ?thesis
  proof (cases "failures proc r ?n = 0")
    case True
    then show ?thesis
      using la sa l2 c2 rj n by (simp add: parallelRun_def Let_def summaryLines_def)
  next
    case False
    with n have "failing proc r ?n \<noteq> []"
      by auto
    with False show ?thesis
      using la sa l2 c2 rj n
      by (simp add: parallelRun_def Let_def summaryLines_def enumerate_map_lines)
  qed
qed


lemma parallelRun_fault:
  assumes "j < length cmds" and "replaceVariables (cmds ! j) vars = Inl (SyntaxError pattern)"
  shows "parallelRun wording finish proc vars cmds w =
           (w, Inr \<lparr>success = False, message = ''Workflow failed: '' @ wording pattern\<rparr>)"
  using launchAll_fault [OF assms, of w] by (simp add: parallelRun_def)

text \<open>
  Claim C3, as the code has it. The parallel branch never reads \<open>continue_on_error\<close>:
  the run of the same workflow with any other value of the flag leaves the same
  console, launches the same commands and returns the same result. When the commands
  resolve, every command is launched, in order, whatever the processes do, and every
  process is awaited. What the run records of them is, on the console, the standard
  output of every process that exited with some, in the order in which the processes
  end, and then the summary: with no rejection the line that counts the commands, and
  otherwise the number of rejections and one line per rejected command, numbered by its
  rank among the rejected commands; the result counts the rejections and is a success
  only when there is none. When a variable name makes the substitution of some command
  throw a \<open>SyntaxError\<close>, no command is launched, nothing but the opening line is
  written, and the result is "Workflow failed: " with the message of the error.
\<close>

theorem parallel_never_short_circuits:
  assumes "getWorkflow db now name = (db1, Some flow)" and "wf_parallel flow"
    and "getWorkflow db2 now name = (db3, Some (flow\<lparr>wf_continue_on_error := b\<rparr>))"
  shows "snd (execute wording finish proc now name vars db2 w)
           = snd (execute wording finish proc now name vars db w)
    \<and> ((\<forall>j<length (wf_commands flow). replaceVariables (wf_commands flow ! j)
                  (spread (spread [] (wf_variables flow)) vars) = Inr (r j)) \<longrightarrow>
        (\<exists>w1. execute wording finish proc now name vars db w =
           (db1, w1,
            Inr (if failures proc r (length (wf_commands flow)) = 0
                 then \<lparr>success = True, message = ''Workflow completed successfully''\<rparr>
                 else \<lparr>success = False,
                       message = ''Workflow completed with ''
                         @ showNat (failures proc r (length (wf_commands flow)))
                         @ '' failures''\<rparr>))
         \<and> launched w1 = launched w @ map r [0..<length (wf_commands flow)]
         \<and> console w1 = console w
              @ [ConsoleLog (CHR 0x0A # ''Executing workflow: '' @ name)]
              @ concat (map (\<lambda>p. stdoutLines (proc p (r p)))
                          (sort_key finish [0..<length (wf_commands flow)]))
              @ summaryLines proc r (length (wf_commands flow))))
    \<and> ((\<exists>j<length (wf_commands flow). replaceVariables (wf_commands flow ! j)
                  (spread (spread [] (wf_variables flow)) vars) = Inl (SyntaxError pattern)) \<longrightarrow>
        (\<exists>w1. execute wording finish proc now name vars db w =
           (db1, w1, Inr \<lparr>success = False,
                          message = ''Workflow failed: '' @ wording pattern\<rparr>)
         \<and> launched w1 = launched w
         \<and> console w1 = console w
              @ [ConsoleLog (CHR 0x0A # ''Executing workflow: '' @ name)]))"
proof (intro conjI impI)
  let ?w0 = "w\<lparr>console := console w @ [ConsoleLog (CHR 0x0A # ''Executing workflow: '' @ name)]\<rparr>"
  let ?vs = "spread (spread [] (wf_variables flow)) vars"
  have e: "\<And>d d1 f. getWorkflow d now name = (d1, Some f) \<Longrightarrow> wf_parallel f \<Longrightarrow>
      execute wording finish proc now name vars d w =
        (d1, fst (parallelRun wording finish proc (spread (spread [] (wf_variables f)) vars)
                    (wf_commands f) ?w0),
         snd (parallelRun wording finish proc (spread (spread [] (wf_variables f)) vars)
                    (wf_commands f) ?w0))"
    by (simp add: execute_def Let_def split: prod.splits)
  show "snd (execute wording finish proc now name vars db2 w)
           = snd (execute wording finish proc now name vars db w)"
    using e [OF assms(1) assms(2)] e [OF assms(3)] assms(2) by simp
  {
    assume a: "\<forall>j<length (wf_commands flow). replaceVariables (wf_commands flow ! j) ?vs = Inr (r j)"
    from parallelRun_all [OF a, of wording finish proc ?w0]
    show "\<exists>w1. execute wording finish proc now name vars db w =
           (db1, w1,
            Inr (if failures proc r (length (wf_commands flow)) = 0
                 then \<lparr>success = True, message = ''Workflow completed successfully''\<rparr>
                 else \<lparr>success = False,
                       message = ''Workflow completed with ''
                         @ showNat (failures proc r (length (wf_commands flow)))
                         @ '' failures''\<rparr>))
         \<and> launched w1 = launched w @ map r [0..<length (wf_commands flow)]
         \<and> console w1 = console w
              @ [ConsoleLog (CHR 0x0A # ''Executing workflow: '' @ name)]
              @ concat (map (\<lambda>p. stdoutLines (proc p (r p)))
                          (sort_key finish [0..<length (wf_commands flow)]))
              @ summaryLines proc r (length (wf_commands flow))"
      unfolding e [OF assms(1) assms(2)] by auto
  }
  {
    assume "\<exists>j<length (wf_commands flow). replaceVariables (wf_commands flow ! j) ?vs
              = Inl (SyntaxError pattern)"
    then obtain j where j: "j < length (wf_commands flow)"
      and f: "replaceVariables (wf_commands flow ! j) ?vs = Inl (SyntaxError pattern)"
      by blast
    show "\<exists>w1. execute wording finish proc now name vars db w =
           (db1, w1, Inr \<lparr>success = False,
                          message = ''Workflow failed: '' @ wording pattern\<rparr>)
         \<and> launched w1 = launched w
         \<and> console w1 = console w
              @ [ConsoleLog (CHR 0x0A # ''Executing workflow: '' @ name)]"
      unfolding e [OF assms(1) assms(2)]
      by (simp add: parallelRun_fault [OF j f])
  }
qed


lemma parallel_facts:
  "wf_parallel (deployFlow parallelOptions)"
  "wf_commands (deployFlow parallelOptions) = threeCommands"
  "spread (spread [] (wf_variables (deployFlow parallelOptions))) [] = [(''env'', ''staging'')]"
  "(deployFlow parallelOptions)\<lparr>wf_continue_on_error := True\<rparr>
     = deployFlow (parallelOptions\<lparr>optContinueOnError := True\<rparr>)"
  "spread (spread [] (wf_variables (deployFlow parallelOptions))) [(''('', ''v'')]
     = [(''env'', ''staging''), (''('', ''v'')]"
  by (simp_all add: deployFlow_def parallelOptions_def stagingOptions_def spread_def
      setProperty_def entries_def isArrayIndex_def isDigit_def)

lemma unclosed_group_refused:
  "replaceVariables (threeCommands ! 0) [(''env'', ''staging''), (''('', ''v'')]
     = Inl (SyntaxError (bracedPattern ''(''))"
  by (simp add: threeCommands_def subst_eval)

theorem parallel_never_short_circuits_witness:
  "(\<exists>db1 w1. execute v8Wording lastFirst (printsExcept 1) 2 ''deploy'' []
                (deployStore parallelOptions) quiet =
           (db1, w1, Inr \<lparr>success = False, message = ''Workflow completed with 1 failures''\<rparr>)
         \<and> launched w1 = [''echo build:staging'', ''echo push:staging'', ''true'']
         \<and> console w1 = [ConsoleLog (CHR 0x0A # ''Executing workflow: deploy''),
                          ConsoleLog ''ran true'', ConsoleLog ''ran echo build:staging'',
                          ConsoleLog ''1 commands failed'',
                          ConsoleLog ''  Command 1: Error: boom''])
   \<and> snd (execute v8Wording lastFirst (printsExcept 1) 2 ''deploy'' []
            (deployStore (parallelOptions\<lparr>optContinueOnError := True\<rparr>)) quiet)
       = snd (execute v8Wording lastFirst (printsExcept 1) 2 ''deploy'' []
               (deployStore parallelOptions) quiet)
   \<and> (\<exists>db1 w1. execute v8Wording lastFirst (printsExcept 1) 2 ''deploy'' [(''('', ''v'')]
                  (deployStore parallelOptions) quiet =
           (db1, w1, Inr \<lparr>success = False,
                          message = ''Workflow failed: '' @ v8Wording (bracedPattern ''('')\<rparr>)
         \<and> launched w1 = []
         \<and> console w1 = [ConsoleLog (CHR 0x0A # ''Executing workflow: deploy'')])"
proof -
  obtain db1 where g: "getWorkflow (deployStore parallelOptions) 2 ''deploy''
      = (db1, Some (deployFlow parallelOptions))"
    using getWorkflow_deployStore by blast
  obtain db3 where g2: "getWorkflow (deployStore (parallelOptions\<lparr>optContinueOnError := True\<rparr>))
        2 ''deploy''
      = (db3, Some ((deployFlow parallelOptions)\<lparr>wf_continue_on_error := True\<rparr>))"
    using getWorkflow_deployStore [of "parallelOptions\<lparr>optContinueOnError := True\<rparr>"]
    by (auto simp: parallel_facts)
  have len3: "length (wf_commands (deployFlow parallelOptions)) = 3"
    by (simp add: parallel_facts threeCommands_def)
  have a: "\<forall>j<length (wf_commands (deployFlow parallelOptions)).
              replaceVariables (wf_commands (deployFlow parallelOptions) ! j)
                  (spread (spread [] (wf_variables (deployFlow parallelOptions))) [])
                = Inr (resolvedStaging j)"
    using staging_resolved_all by (simp add: parallel_facts)
  have b: "\<exists>j<length (wf_commands (deployFlow parallelOptions)).
              replaceVariables (wf_commands (deployFlow parallelOptions) ! j)
                  (spread (spread [] (wf_variables (deployFlow parallelOptions))) [(''('', ''v'')])
                = Inl (SyntaxError (bracedPattern ''(''))"
    using unclosed_group_refused by (auto simp: parallel_facts threeCommands_def)
  have u: "[0..<3] = [0, 1, 2]" by (simp add: upt_rec)
  have f: "failures (printsExcept 1) resolvedStaging 3 = 1"
    by (simp add: failures_def u printsExcept_def)
  have s: "summaryLines (printsExcept 1) resolvedStaging 3
      = [ConsoleLog ''1 commands failed'', ConsoleLog ''  Command 1: Error: boom'']"
    unfolding summaryLines_def f
    by (simp add: failing_def u printsExcept_def errorToString_def showNat_digit digitChar_def)
  have o: "concat (map (\<lambda>p. stdoutLines (printsExcept 1 p (resolvedStaging p)))
                     (sort_key lastFirst [0..<3]))
      = [ConsoleLog ''ran true'', ConsoleLog ''ran echo build:staging'']"
    by (simp add: u lastFirst_def printsExcept_def resolvedStaging_def)
  note first = parallel_never_short_circuits
    [where r = resolvedStaging and proc = "printsExcept 1" and w = quiet
       and wording = v8Wording and finish = lastFirst and vars = "[]", OF g parallel_facts(1) g2,
     unfolded len3 f s o]
  note second = parallel_never_short_circuits
    [where proc = "printsExcept 1" and w = quiet and wording = v8Wording and finish = lastFirst
       and vars = "[(''('', ''v'')]" and pattern = "bracedPattern ''(''",
     OF g parallel_facts(1) g2]
  from first a [unfolded len3]
  have 1: "\<exists>w1. execute v8Wording lastFirst (printsExcept 1) 2 ''deploy'' []
                (deployStore parallelOptions) quiet =
           (db1, w1, Inr \<lparr>success = False, message = ''Workflow completed with 1 failures''\<rparr>)
         \<and> launched w1 = [''echo build:staging'', ''echo push:staging'', ''true'']
         \<and> console w1 = [ConsoleLog (CHR 0x0A # ''Executing workflow: deploy''),
                          ConsoleLog ''ran true'', ConsoleLog ''ran echo build:staging'',
                          ConsoleLog ''1 commands failed'',
                          ConsoleLog ''  Command 1: Error: boom'']"
    by (simp add: resolvedStaging_def quiet_def u showNat_digit digitChar_def)
  from first
  have 2: "snd (execute v8Wording lastFirst (printsExcept 1) 2 ''deploy'' []
            (deployStore (parallelOptions\<lparr>optContinueOnError := True\<rparr>)) quiet)
       = snd (execute v8Wording lastFirst (printsExcept 1) 2 ''deploy'' []
               (deployStore parallelOptions) quiet)"
    by blast
  from second b
  have 3: "\<exists>w1. execute v8Wording lastFirst (printsExcept 1) 2 ''deploy'' [(''('', ''v'')]
                  (deployStore parallelOptions) quiet =
           (db1, w1, Inr \<lparr>success = False,
                          message = ''Workflow failed: '' @ v8Wording (bracedPattern ''('')\<rparr>)
         \<and> launched w1 = []
         \<and> console w1 = [ConsoleLog (CHR 0x0A # ''Executing workflow: deploy'')]"
    by (simp add: quiet_def)
  from 1 2 3 show ?thesis by blast
qed

text \<open>
  Claim C3 as stated fails. In the parallel run of \<open>[A, B, C]\<close> where only \<open>B\<close> is
  rejected, the console has no line for \<open>A\<close> and none for \<open>C\<close>, and the failure of \<open>B\<close>
  is recorded as that of "Command 1". With the variable name \<open>(\<close> no command is
  launched and the run fails.
\<close>

theorem parallel_run_leaves_commands_unrecorded:
  "console (fst (snd (execute v8Wording inOrder (failsAt 1) 2 ''deploy'' []
                        (deployStore parallelOptions) quiet)))
     = [ConsoleLog (CHR 0x0A # ''Executing workflow: deploy''),
        ConsoleLog ''1 commands failed'', ConsoleLog ''  Command 1: Error: boom'']
   \<and> launched (fst (snd (execute v8Wording inOrder allExit 2 ''deploy'' [(''('', ''v'')]
                          (deployStore parallelOptions) quiet))) = []
   \<and> snd (snd (execute v8Wording inOrder allExit 2 ''deploy'' [(''('', ''v'')]
                 (deployStore parallelOptions) quiet))
       = Inr \<lparr>success = False,
              message = ''Workflow failed: '' @ v8Wording (bracedPattern ''('')\<rparr>"
proof -
  obtain db1 where g: "getWorkflow (deployStore parallelOptions) 2 ''deploy''
      = (db1, Some (deployFlow parallelOptions))"
    using getWorkflow_deployStore by blast
  let ?w0 = "quiet\<lparr>console := console quiet
               @ [ConsoleLog (CHR 0x0A # ''Executing workflow: '' @ ''deploy'')]\<rparr>"
  have u: "[0..<3] = [0, 1, 2]" by (simp add: upt_rec)
  have l: "launchAll [(''env'', ''staging'')] threeCommands ?w0
      = (?w0\<lparr>launched := [''echo build:staging'', ''echo push:staging'', ''true'']\<rparr>,
         Inr [''echo build:staging'', ''echo push:staging'', ''true''])"
    by (simp add: threeCommands_def subst_eval launch_def quiet_def)
  have p: "fst (parallelRun v8Wording inOrder (failsAt 1) [(''env'', ''staging'')] threeCommands ?w0)
      = \<lparr>console = [ConsoleLog (CHR 0x0A # ''Executing workflow: deploy''),
                    ConsoleLog ''1 commands failed'', ConsoleLog ''  Command 1: Error: boom''],
         launched = [''echo build:staging'', ''echo push:staging'', ''true'']\<rparr>"
    unfolding parallelRun_def l
    by (simp add: settleAll_def settle_def u inOrder_def failsAt_def errorToString_def
        showNat_digit digitChar_def quiet_def Let_def)
  have q: "parallelRun v8Wording inOrder allExit [(''env'', ''staging''), (''('', ''v'')]
             threeCommands ?w0
      = (?w0, Inr \<lparr>success = False,
                    message = ''Workflow failed: '' @ v8Wording (bracedPattern ''('')\<rparr>)"
    using unclosed_group_refused by (simp add: parallelRun_def threeCommands_def)
  have e1: "fst (snd (execute v8Wording inOrder (failsAt 1) 2 ''deploy'' []
                        (deployStore parallelOptions) quiet))
      = fst (parallelRun v8Wording inOrder (failsAt 1) [(''env'', ''staging'')] threeCommands ?w0)"
    unfolding execute_def Let_def g by (simp add: parallel_facts split: prod.splits)
  have e2: "snd (execute v8Wording inOrder allExit 2 ''deploy'' [(''('', ''v'')]
                   (deployStore parallelOptions) quiet)
      = parallelRun v8Wording inOrder allExit [(''env'', ''staging''), (''('', ''v'')]
             threeCommands ?w0"
    unfolding execute_def Let_def g by (simp add: parallel_facts split: prod.splits)
  show ?thesis
    unfolding e1 e2 p q by (simp add: quiet_def)
qed

section \<open>Properties of the substitutor\<close>

lemma plainText_Cons: "plainText (c # s) = (\<not> isSyntaxCharacter c \<and> plainText s)"
  by (simp add: plainText_def)

lemma plain_char:
  assumes "\<not> isSyntaxCharacter c"
  shows "c \<noteq> backslash" "c \<noteq> CHR ''.''" "c \<noteq> CHR ''(''" "c \<noteq> CHR ''$''"
    "c \<noteq> CHR ''{''" "c \<noteq> CHR ''}''"
  using assms by (auto simp: isSyntaxCharacter_def)

lemma parsePattern_plain_append:
  assumes "plainText s"
  shows "parsePattern (s @ t) =
           (case parsePattern t of Inl e \<Rightarrow> Inl e | Inr atoms \<Rightarrow> Inr (map Lit s @ atoms))"
  using assms
proof (induction s)
  case Nil
  then show ?case by (simp split: sum.splits)
next
  case (Cons c s)
  then have c: "\<not> isSyntaxCharacter c" and s: "plainText s"
    by (simp_all add: plainText_Cons)
  from Cons.IH [OF s] plain_char [OF c] c show ?case
    by (simp split: sum.splits)
qed

lemma parsePattern_plain: "plainText s \<Longrightarrow> parsePattern s = Inr (map Lit s)"
  using parsePattern_plain_append [of s "[]"] by simp

lemma syntax_chars:
  "isSyntaxCharacter (CHR ''$'')" "isSyntaxCharacter (CHR ''{'')" "isSyntaxCharacter (CHR ''}'')"
  by (simp_all add: isSyntaxCharacter_def)

lemma RegExp_braced:
  assumes "plainText k"
  shows "RegExp (bracedPattern k) = Inr (map Lit (bracedPlaceholder k))"
proof -
  have t: "parsePattern [backslash, CHR ''}''] = Inr [Lit (CHR ''}'')]"
    by (simp add: syntax_chars)
  have "parsePattern (k @ [backslash, CHR ''}'']) = Inr (map Lit k @ [Lit (CHR ''}'')])"
    using parsePattern_plain_append [OF assms, of "[backslash, CHR ''}'']"] t by simp
  then have "parsePattern (bracedPattern k) = Inr (map Lit (bracedPlaceholder k))"
    by (simp add: bracedPattern_def bracedPlaceholder_def syntax_chars)
  then show ?thesis by (simp add: RegExp_def)
qed

lemma RegExp_bare:
  assumes "plainText k"
  shows "RegExp (barePattern k) = Inr (map Lit (barePlaceholder k))"
proof -
  have "parsePattern (barePattern k) = Inr (map Lit (barePlaceholder k))"
    using parsePattern_plain [OF assms]
    by (simp add: barePattern_def barePlaceholder_def syntax_chars)
  then show ?thesis by (simp add: RegExp_def)
qed

lemma matchAt_literal: "matchAt (map Lit p) s = prefix p s"
proof (induction p arbitrary: s)
  case Nil
  then show ?case by simp
next
  case (Cons c p)
  then show ?case by (cases s) auto
qed

text \<open>One scan step for a literal, non-empty pattern.\<close>

lemma replaceScan_literal:
  assumes "p \<noteq> []"
  shows "replaceScan (map Lit p) v pre rest =
     (if prefix p rest then
        getSubstitution p pre (drop (length p) rest) v
          @ replaceScan (map Lit p) v (pre @ p) (drop (length p) rest)
      else (case rest of [] \<Rightarrow> [] | c # cs \<Rightarrow> c # replaceScan (map Lit p) v (pre @ [c]) cs))"
proof (cases "prefix p rest")
  case True
  then have "take (length p) rest = p"
    by (auto simp: prefix_def)
  with True assms show ?thesis
    by (subst replaceScan.simps) (simp add: matchAt_literal)
next
  case False
  then show ?thesis
    by (subst replaceScan.simps) (simp add: matchAt_literal)
qed

lemma replaceScan_absent:
  assumes "p \<noteq> []" and "\<not> sublist p rest"
  shows "replaceScan (map Lit p) v pre rest = rest"
  using assms(2)
proof (induction rest arbitrary: pre)
  case Nil
  then show ?case
    using assms(1) by (subst replaceScan_literal) auto
next
  case (Cons c cs)
  then have np: "\<not> prefix p (c # cs)" and ns: "\<not> sublist p cs"
    by (simp_all add: sublist_Cons_right)
  show ?case
    using np Cons.IH [OF ns] assms(1) by (subst replaceScan_literal) auto
qed

lemma replace_absent:
  assumes "p \<noteq> []" and "\<not> sublist p s"
  shows "replace s (map Lit p) v = s"
  using replaceScan_absent [OF assms] by (simp add: replace_def)

lemma replaceEntries_absent:
  assumes "list_all (\<lambda>(k, v). plainText k) es"
    and "list_all (\<lambda>(k, v). \<not> mentions s k) es"
  shows "replaceEntries es s = Inr s"
  using assms
proof (induction es)
  case Nil
  then show ?case by simp
next
  case (Cons e es)
  obtain k v where e: "e = (k, v)" by (cases e)
  from Cons.prems e have pk: "plainText k" and nb: "\<not> sublist (bracedPlaceholder k) s"
    and nd: "\<not> sublist (barePlaceholder k) s"
    by (simp_all add: mentions_def)
  have r1: "replace s (map Lit (bracedPlaceholder k)) v = s"
    using nb by (intro replace_absent) (simp_all add: bracedPlaceholder_def)
  have r2: "replace s (map Lit (barePlaceholder k)) v = s"
    using nd by (intro replace_absent) (simp_all add: barePlaceholder_def)
  from Cons.prems have "replaceEntries es s = Inr s"
    by (intro Cons.IH) simp_all
  then show ?case
    by (simp add: e RegExp_braced [OF pk] RegExp_bare [OF pk] r1 r2 Let_def)
qed

lemma set_entries: "set (entries obj) = set obj"
  by (auto simp: entries_def)

lemma list_all_entries: "list_all P (entries obj) = list_all P obj"
  by (simp add: list_all_iff set_entries)

text \<open>
  Claim C9, as the code has it. For a variable map whose names are plain and a string
  in which no placeholder text \<open>${k}\<close> or \<open>$k\<close> of a name of the map occurs,
  \<open>replaceVariables\<close> returns the string itself, so substituting again changes nothing.
\<close>

theorem replaceVariables_without_placeholders:
  assumes "list_all (\<lambda>(k, v). plainText k) variables"
    and "list_all (\<lambda>(k, v). \<not> mentions s k) variables"
  shows "replaceVariables s variables = Inr s"
  unfolding replaceVariables_def
  using assms by (intro replaceEntries_absent) (simp_all add: list_all_entries)

theorem replaceVariables_without_placeholders_witness:
  "replaceVariables ''echo build:staging'' [(''env'', ''staging'')] = Inr ''echo build:staging''"
proof -
  have p: "list_all (\<lambda>(k, v). plainText k) [(''env'', ''staging'')]"
    by (simp add: plainText_def isSyntaxCharacter_def backslash_def)
  have m: "list_all (\<lambda>(k, v). \<not> mentions ''echo build:staging'' k) [(''env'', ''staging'')]"
    by (simp add: mentions_def bracedPlaceholder_def barePlaceholder_def sublist_Cons_right)
  show ?thesis
    using replaceVariables_without_placeholders [OF p m] .
qed

text \<open>
  Claim C9 as stated fails for a name with a regular expression syntax character: with
  the name \<open>.\<close> the string \<open>$x\<close>, which contains neither \<open>${.}\<close> nor \<open>$.\<close>, is
  rewritten.
\<close>

theorem dot_key_rewrites_other_text:
  "replaceVariables ''$x'' [(''.'', ''v'')] = Inr ''v'' \<and> \<not> mentions ''$x'' ''.''"
  by (simp add: subst_eval mentions_def bracedPlaceholder_def barePlaceholder_def
      sublist_Cons_right)

lemma replaceScan_match:
  assumes "p \<noteq> []" and "prefix p rest"
  shows "replaceScan (map Lit p) v pre rest =
           getSubstitution p pre (drop (length p) rest) v
             @ replaceScan (map Lit p) v (pre @ p) (drop (length p) rest)"
  using assms by (subst replaceScan_literal) simp_all

lemma replaceScan_skip:
  assumes "p \<noteq> []" and "\<not> prefix p (c # cs)"
  shows "replaceScan (map Lit p) v pre (c # cs) = c # replaceScan (map Lit p) v (pre @ [c]) cs"
  using assms by (subst replaceScan_literal) simp_all

lemma replaceScan_end:
  assumes "p \<noteq> []"
  shows "replaceScan (map Lit p) v pre [] = []"
  using assms by (subst replaceScan_literal) simp_all

lemma replaceScan_dollar_free:
  assumes "CHR ''$'' \<notin> set u"
  shows "replaceScan (map Lit (CHR ''$'' # p)) v pre (u @ rest)
           = u @ replaceScan (map Lit (CHR ''$'' # p)) v (pre @ u) rest"
  using assms
proof (induction u arbitrary: pre)
  case Nil
  then show ?case by simp
next
  case (Cons c u)
  then have c: "c \<noteq> CHR ''$''" and u: "CHR ''$'' \<notin> set u"
    by auto
  have "\<not> prefix (CHR ''$'' # p) (c # (u @ rest))"
    using c by simp
  then have "replaceScan (map Lit (CHR ''$'' # p)) v pre (c # (u @ rest))
          = c # replaceScan (map Lit (CHR ''$'' # p)) v (pre @ [c]) (u @ rest)"
    by (intro replaceScan_skip) simp_all
  also have "\<dots> = c # u @ replaceScan (map Lit (CHR ''$'' # p)) v ((pre @ [c]) @ u) rest"
    using Cons.IH [OF u, of "pre @ [c]"] by (simp only:)
  finally show ?case by simp
qed

lemmas plain_eval = plainText_def isSyntaxCharacter_def backslash_def

lemma getSubstitution_plain:
  assumes "CHR ''$'' \<notin> set v"
  shows "getSubstitution m pre post v = v"
  using assms by (induction v) auto

lemma join_Cons: "pieces \<noteq> [] \<Longrightarrow> join (piece # pieces) sep = piece @ sep @ join pieces sep"
  by (cases pieces) simp_all

lemma splitOn_hit:
  assumes "sep \<noteq> []" and "prefix sep (c # cs)"
  shows "splitOn sep piece (c # cs) = piece # splitOn sep [] (drop (length sep) (c # cs))"
  using assms by simp

lemma splitOn_miss:
  assumes "\<not> (sep \<noteq> [] \<and> prefix sep (c # cs))"
  shows "splitOn sep piece (c # cs) = splitOn sep (piece @ [c]) cs"
  using assms by auto

lemma splitOn_nonempty: "splitOn sep piece rest \<noteq> []"
  by (induction sep piece rest rule: splitOn.induct) auto

lemma join_splitOn_piece:
  "join (splitOn sep (u @ piece) rest) v = u @ join (splitOn sep piece rest) v"
proof (induction sep piece rest arbitrary: u rule: splitOn.induct)
  case (1 sep piece)
  then show ?case by simp
next
  case (2 sep piece c cs)
  show ?case
  proof (cases "sep \<noteq> [] \<and> prefix sep (c # cs)")
    case True
    then have "splitOn sep (u @ piece) (c # cs)
        = (u @ piece) # splitOn sep [] (drop (length sep) (c # cs))"
      and "splitOn sep piece (c # cs) = piece # splitOn sep [] (drop (length sep) (c # cs))"
      by (simp_all add: splitOn_hit)
    then show ?thesis
      by (simp only: join_Cons [OF splitOn_nonempty] append_assoc)
  next
    case False
    then have "splitOn sep (u @ piece) (c # cs) = splitOn sep ((u @ piece) @ [c]) cs"
      and "splitOn sep piece (c # cs) = splitOn sep (piece @ [c]) cs"
      using splitOn_miss [OF False] by simp_all
    with "2.IH"(2) [OF False, of u] show ?thesis by simp
  qed
qed

lemma replaceScan_split_join:
  assumes "p \<noteq> []" and "CHR ''$'' \<notin> set v"
  shows "replaceScan (map Lit p) v pre rest = join (splitOn p [] rest) v"
proof (induction "length rest" arbitrary: rest pre rule: less_induct)
  case less
  show ?case
  proof (cases rest)
    case Nil
    then show ?thesis
      using replaceScan_end [OF assms(1)] by simp
  next
    case (Cons c cs)
    show ?thesis
    proof (cases "prefix p rest")
      case True
      have "length (drop (length p) rest) < length rest"
        using assms(1) Cons by simp
      from less [OF this, of "pre @ p"]
      have ih: "replaceScan (map Lit p) v (pre @ p) (drop (length p) rest)
          = join (splitOn p [] (drop (length p) rest)) v" .
      have "replaceScan (map Lit p) v pre rest
          = v @ join (splitOn p [] (drop (length p) rest)) v"
        using replaceScan_match [OF assms(1) True, of v pre] ih
        by (simp add: getSubstitution_plain [OF assms(2)])
      moreover have "splitOn p [] rest = [] # splitOn p [] (drop (length p) rest)"
        using splitOn_hit [OF assms(1), of c cs "[]"] True Cons by simp
      then have "join (splitOn p [] rest) v
          = v @ join (splitOn p [] (drop (length p) rest)) v"
        by (simp only: join_Cons [OF splitOn_nonempty] append_Nil)
      ultimately show ?thesis by simp
    next
      case False
      have "length cs < length rest" using Cons by simp
      from less [OF this, of "pre @ [c]"]
      have ih: "replaceScan (map Lit p) v (pre @ [c]) cs = join (splitOn p [] cs) v" .
      have "replaceScan (map Lit p) v pre rest = c # join (splitOn p [] cs) v"
        using replaceScan_skip [OF assms(1), of c cs v pre] False Cons ih by simp
      moreover have "splitOn p [] rest = splitOn p ([] @ [c]) cs"
        using splitOn_miss [of p c cs "[]"] False Cons by simp
      then have "join (splitOn p [] rest) v = c # join (splitOn p [] cs) v"
        using join_splitOn_piece [of p "[c]" "[]" cs v] by simp
      ultimately show ?thesis by simp
    qed
  qed
qed

lemma replace_substituteAll:
  assumes "p \<noteq> []" and "CHR ''$'' \<notin> set v"
  shows "replace s (map Lit p) v = substituteAll s p v"
  using replaceScan_split_join [OF assms] assms(1)
  by (simp add: replace_def substituteAll_def split_def)

lemma replaceEntries_passes:
  assumes "list_all (\<lambda>(k, v). plainText k \<and> CHR ''$'' \<notin> set v) es"
  shows "replaceEntries es s =
     Inr (foldl (\<lambda>acc (k, v). substituteAll (substituteAll acc (bracedPlaceholder k) v)
                                 (barePlaceholder k) v) s es)"
  using assms
proof (induction es arbitrary: s)
  case Nil
  then show ?case by simp
next
  case (Cons e es)
  obtain k v where e: "e = (k, v)" by (cases e)
  from Cons.prems e have pk: "plainText k" and nv: "CHR ''$'' \<notin> set v"
    and rest: "list_all (\<lambda>(k, v). plainText k \<and> CHR ''$'' \<notin> set v) es"
    by simp_all
  have r1: "replace s (map Lit (bracedPlaceholder k)) v = substituteAll s (bracedPlaceholder k) v"
    using nv by (intro replace_substituteAll) (simp_all add: bracedPlaceholder_def)
  have r2: "replace (substituteAll s (bracedPlaceholder k) v) (map Lit (barePlaceholder k)) v
      = substituteAll (substituteAll s (bracedPlaceholder k) v) (barePlaceholder k) v"
    using nv by (intro replace_substituteAll) (simp_all add: barePlaceholder_def)
  have "replaceEntries (e # es) s
      = replaceEntries es (substituteAll (substituteAll s (bracedPlaceholder k) v)
                             (barePlaceholder k) v)"
    by (simp add: e RegExp_braced [OF pk] RegExp_bare [OF pk] Let_def r1 r2)
  with Cons.IH [OF rest] show ?case
    by (simp add: e)
qed

lemma replaceEntries_append:
  "replaceEntries (es1 @ es2) s =
     (case replaceEntries es1 s of Inl e \<Rightarrow> Inl e | Inr s1 \<Rightarrow> replaceEntries es2 s1)"
proof (induction es1 arbitrary: s)
  case Nil
  then show ?case by simp
next
  case (Cons e es1)
  obtain k v where e: "e = (k, v)" by (cases e)
  show ?case
    using Cons.IH by (simp add: e Let_def split: sum.splits)
qed

text \<open>
  Claim C8, as the code has it. The loop over the entries hands the string that the
  earlier entries produced to the later ones, whatever the names and values are. For a
  variable map with plain names and values without a dollar sign, the substitution is
  the composition, over the entries in \<open>Object.entries\<close> order, of two exhaustive
  passes per variable, first over every \<open>${k}\<close> and then over every \<open>$k\<close>. Each pass
  is one scan of the string it is given (it equals splitting that string at the
  placeholder and joining with the value), so the text it inserts is not scanned again
  by that pass; the next pass is given the whole result, inserted text included.
\<close>

theorem substitution_is_sequence_of_passes:
  "replaceEntries (es1 @ es2) s =
     (case replaceEntries es1 s of Inl e \<Rightarrow> Inl e | Inr s1 \<Rightarrow> replaceEntries es2 s1)
   \<and> (list_all (\<lambda>(k, v). plainText k \<and> CHR ''$'' \<notin> set v) variables \<longrightarrow>
        replaceVariables t variables =
          Inr (foldl (\<lambda>acc (k, v). substituteAll (substituteAll acc (bracedPlaceholder k) v)
                                      (barePlaceholder k) v) t (entries variables)))"
proof (intro conjI impI)
  show "replaceEntries (es1 @ es2) s =
     (case replaceEntries es1 s of Inl e \<Rightarrow> Inl e | Inr s1 \<Rightarrow> replaceEntries es2 s1)"
    by (rule replaceEntries_append)
next
  assume "list_all (\<lambda>(k, v). plainText k \<and> CHR ''$'' \<notin> set v) variables"
  then show "replaceVariables t variables =
          Inr (foldl (\<lambda>acc (k, v). substituteAll (substituteAll acc (bracedPlaceholder k) v)
                                      (barePlaceholder k) v) t (entries variables))"
    unfolding replaceVariables_def
    by (intro replaceEntries_passes) (simp add: list_all_iff set_entries)
qed

theorem substitution_is_sequence_of_passes_witness:
  "replaceVariables ''${greeting}, $name'' [(''greeting'', ''hello''), (''name'', ''world'')]
     = Inr ''hello, world''
   \<and> replaceEntries ([(''a'', ''${b}'')] @ [(''b'', ''x'')]) ''${a}''
     = replaceEntries [(''b'', ''x'')] ''${b}''"
proof -
  have h: "list_all (\<lambda>(k, v). plainText k \<and> CHR ''$'' \<notin> set v)
             [(''greeting'', ''hello''), (''name'', ''world'')]"
    by (simp add: plain_eval)
  have e: "entries [(''greeting'', ''hello''), (''name'', ''world'')]
      = [(''greeting'', ''hello''), (''name'', ''world'')]"
    by (simp add: entries_def isArrayIndex_def isDigit_def)
  note fact = substitution_is_sequence_of_passes
    [of "[(''a'', ''${b}'')]" "[(''b'', ''x'')]" "''${a}''"
        "[(''greeting'', ''hello''), (''name'', ''world'')]" "''${greeting}, $name''"]
  from fact h
  have "replaceVariables ''${greeting}, $name'' [(''greeting'', ''hello''), (''name'', ''world'')]
     = Inr (foldl (\<lambda>acc (k, v). substituteAll (substituteAll acc (bracedPlaceholder k) v)
                                      (barePlaceholder k) v) ''${greeting}, $name''
              (entries [(''greeting'', ''hello''), (''name'', ''world'')]))"
    by blast
  then have a: "replaceVariables ''${greeting}, $name''
        [(''greeting'', ''hello''), (''name'', ''world'')] = Inr ''hello, world''"
    unfolding e
    by (simp add: substituteAll_def split_def bracedPlaceholder_def barePlaceholder_def)
  have first: "replaceEntries [(''a'', ''${b}'')] ''${a}'' = Inr ''${b}''"
    by (simp add: subst_eval)
  from fact have "replaceEntries ([(''a'', ''${b}'')] @ [(''b'', ''x'')]) ''${a}''
     = (case replaceEntries [(''a'', ''${b}'')] ''${a}'' of
          Inl e \<Rightarrow> Inl e | Inr s1 \<Rightarrow> replaceEntries [(''b'', ''x'')] s1)"
    by blast
  then have b: "replaceEntries ([(''a'', ''${b}'')] @ [(''b'', ''x'')]) ''${a}''
     = replaceEntries [(''b'', ''x'')] ''${b}''"
    unfolding first by simp
  from a b show ?thesis by (intro conjI)
qed

text \<open>
  Claim C8 as stated fails: a value inserted for one variable is substituted again as a
  placeholder of a later variable, and inserted text can complete such a placeholder.
\<close>

theorem inserted_text_is_reprocessed:
  "replaceVariables ''${a}'' [(''a'', ''${b}''), (''b'', ''x'')] = Inr ''x''
   \<and> replaceVariables ''${${a}}'' [(''a'', ''b''), (''b'', ''c'')] = Inr ''c''"
  by (simp add: subst_eval)

lemma replaceScan_pre:
  assumes "p \<noteq> []" and "CHR ''$'' \<notin> set v"
  shows "replaceScan (map Lit p) v pre rest = replace rest (map Lit p) v"
  unfolding replace_def
  using replaceScan_split_join [OF assms, of pre rest] replaceScan_split_join [OF assms, of "[]" rest]
  by simp

lemma replaceScan_keeps:
  assumes p: "CHR ''$'' \<notin> set p"
    and o: "CHR ''$'' \<notin> set occ"
    and g: "\<not> prefix (CHR ''$'' # p) ((CHR ''$'' # occ) @ b)"
  shows "\<exists>a1. replaceScan (map Lit (CHR ''$'' # p)) v pre (a @ (CHR ''$'' # occ) @ b)
                 = a1 @ (CHR ''$'' # occ)
                     @ replaceScan (map Lit (CHR ''$'' # p)) v (pre @ a @ (CHR ''$'' # occ)) b
              \<and> (CHR ''$'' \<notin> set v \<longrightarrow> a1 = replaceScan (map Lit (CHR ''$'' # p)) v pre a)"
proof (induction "length a" arbitrary: a pre rule: less_induct)
  case less
  define pat where "pat = CHR ''$'' # p"
  define oc where "oc = CHR ''$'' # occ"
  have pne: "pat \<noteq> []" by (simp add: pat_def)
  show ?case unfolding pat_def [symmetric] oc_def [symmetric]
  proof (cases a)
    case Nil
    have np: "\<not> prefix pat (CHR ''$'' # (occ @ b))"
      using g by (simp add: pat_def)
    have "replaceScan (map Lit pat) v pre (CHR ''$'' # (occ @ b))
            = CHR ''$'' # replaceScan (map Lit pat) v (pre @ [CHR ''$'']) (occ @ b)"
      using pne np by (rule replaceScan_skip)
    also have "\<dots> = CHR ''$'' # occ @ replaceScan (map Lit pat) v ((pre @ [CHR ''$'']) @ occ) b"
      unfolding pat_def using replaceScan_dollar_free [OF o, of p v "pre @ [CHR ''$'']" b]
      by (simp only:)
    finally have "replaceScan (map Lit pat) v pre (a @ oc @ b)
        = [] @ oc @ replaceScan (map Lit pat) v (pre @ a @ oc) b"
      using Nil by (simp add: oc_def)
    moreover have "replaceScan (map Lit pat) v pre a = []"
      using Nil replaceScan_end [OF pne] by simp
    ultimately show "\<exists>a1. replaceScan (map Lit pat) v pre (a @ oc @ b)
                 = a1 @ oc @ replaceScan (map Lit pat) v (pre @ a @ oc) b
              \<and> (CHR ''$'' \<notin> set v \<longrightarrow> a1 = replaceScan (map Lit pat) v pre a)"
      by simp
  next
    case (Cons c a2)
    show "\<exists>a1. replaceScan (map Lit pat) v pre (a @ oc @ b)
                 = a1 @ oc @ replaceScan (map Lit pat) v (pre @ a @ oc) b
              \<and> (CHR ''$'' \<notin> set v \<longrightarrow> a1 = replaceScan (map Lit pat) v pre a)"
    proof (cases "prefix pat (a @ oc @ b)")
      case True
      have pa: "prefix pat a"
      proof (rule ccontr)
        assume n: "\<not> prefix pat a"
        from True have "prefix pat a \<or> (\<exists>us. pat = a @ us \<and> prefix us (oc @ b))"
          by (simp only: prefix_append)
        with n obtain us where us: "pat = a @ us" and pu: "prefix us (oc @ b)"
          by blast
        from n us have "us \<noteq> []" by auto
        with pu obtain us2 where "us = CHR ''$'' # us2"
          by (cases us) (auto simp: oc_def)
        with us Cons have "CHR ''$'' \<in> set p" by (auto simp: pat_def)
        with p show False by simp
      qed
      then obtain a3 where a3: "a = pat @ a3"
        by (auto simp: prefix_def)
      then have d: "drop (length pat) (a @ oc @ b) = a3 @ oc @ b"
        and d2: "drop (length pat) a = a3"
        by simp_all
      have "length a3 < length a" using a3 pne by simp
      from less [OF this, of "pre @ pat"]
      obtain a1 where r: "replaceScan (map Lit pat) v (pre @ pat) (a3 @ oc @ b)
            = a1 @ oc @ replaceScan (map Lit pat) v ((pre @ pat) @ a3 @ oc) b"
        and r2: "CHR ''$'' \<notin> set v \<longrightarrow> a1 = replaceScan (map Lit pat) v (pre @ pat) a3"
        unfolding pat_def oc_def by blast
      have "replaceScan (map Lit pat) v pre (a @ oc @ b)
          = getSubstitution pat pre (drop (length pat) (a @ oc @ b)) v
             @ replaceScan (map Lit pat) v (pre @ pat) (drop (length pat) (a @ oc @ b))"
        using pne True by (rule replaceScan_match)
      also have "\<dots> = (getSubstitution pat pre (a3 @ oc @ b) v @ a1) @ oc
             @ replaceScan (map Lit pat) v (pre @ a @ oc) b"
        unfolding d r by (simp add: a3)
      finally have e1: "replaceScan (map Lit pat) v pre (a @ oc @ b)
          = (getSubstitution pat pre (a3 @ oc @ b) v @ a1) @ oc
             @ replaceScan (map Lit pat) v (pre @ a @ oc) b" .
      have e2: "CHR ''$'' \<notin> set v \<longrightarrow>
          getSubstitution pat pre (a3 @ oc @ b) v @ a1 = replaceScan (map Lit pat) v pre a"
      proof
        assume nv: "CHR ''$'' \<notin> set v"
        have "replaceScan (map Lit pat) v pre a
          = getSubstitution pat pre (drop (length pat) a) v
             @ replaceScan (map Lit pat) v (pre @ pat) (drop (length pat) a)"
          using pne pa by (rule replaceScan_match)
        with nv r2 show "getSubstitution pat pre (a3 @ oc @ b) v @ a1
            = replaceScan (map Lit pat) v pre a"
          by (simp add: d2 getSubstitution_plain)
      qed
      from e1 e2 show ?thesis by blast
    next
      case False
      have "length a2 < length a" using Cons by simp
      from less [OF this, of "pre @ [c]"]
      obtain a1 where r: "replaceScan (map Lit pat) v (pre @ [c]) (a2 @ oc @ b)
            = a1 @ oc @ replaceScan (map Lit pat) v ((pre @ [c]) @ a2 @ oc) b"
        and r2: "CHR ''$'' \<notin> set v \<longrightarrow> a1 = replaceScan (map Lit pat) v (pre @ [c]) a2"
        unfolding pat_def oc_def by blast
      from False Cons have np: "\<not> prefix pat (c # (a2 @ oc @ b))" by simp
      then have np2: "\<not> prefix pat (c # a2)"
        by (metis append_Cons prefix_prefix)
      from pne np have "replaceScan (map Lit pat) v pre (c # (a2 @ oc @ b))
          = c # replaceScan (map Lit pat) v (pre @ [c]) (a2 @ oc @ b)"
        by (rule replaceScan_skip)
      then have e1: "replaceScan (map Lit pat) v pre (a @ oc @ b)
          = (c # a1) @ oc @ replaceScan (map Lit pat) v (pre @ a @ oc) b"
        using r Cons by simp
      from pne np2 have "replaceScan (map Lit pat) v pre (c # a2)
          = c # replaceScan (map Lit pat) v (pre @ [c]) a2"
        by (rule replaceScan_skip)
      with r2 Cons have e2: "CHR ''$'' \<notin> set v \<longrightarrow> c # a1 = replaceScan (map Lit pat) v pre a"
        by simp
      from e1 e2 show ?thesis by blast
    qed
  qed
qed


text \<open>
  One pass keeps an occurrence that its placeholder cannot touch: the placeholder is not
  a prefix of the occurrence, and the occurrence is not a prefix of the placeholder
  unless the string ends with it.
\<close>

lemma pass_keeps:
  assumes p: "CHR ''$'' \<notin> set p" and o: "CHR ''$'' \<notin> set occ"
    and g1: "\<not> prefix (CHR ''$'' # p) (CHR ''$'' # occ)"
    and g2: "\<not> prefix (CHR ''$'' # occ) (CHR ''$'' # p) \<or> b = []"
  shows "\<exists>a1 b1. replace (a @ (CHR ''$'' # occ) @ b) (map Lit (CHR ''$'' # p)) v
                    = a1 @ (CHR ''$'' # occ) @ b1
              \<and> (b = [] \<longrightarrow> b1 = [])
              \<and> (CHR ''$'' \<notin> set v \<longrightarrow>
                   a1 = replace a (map Lit (CHR ''$'' # p)) v
                   \<and> b1 = replace b (map Lit (CHR ''$'' # p)) v)"
proof -
  have g: "\<not> prefix (CHR ''$'' # p) ((CHR ''$'' # occ) @ b)"
  proof
    assume "prefix (CHR ''$'' # p) ((CHR ''$'' # occ) @ b)"
    then have "prefix (CHR ''$'' # p) (CHR ''$'' # occ)
        \<or> (\<exists>us. CHR ''$'' # p = (CHR ''$'' # occ) @ us \<and> prefix us b)"
      by (simp only: prefix_append)
    with g1 obtain us where us: "CHR ''$'' # p = (CHR ''$'' # occ) @ us" and pu: "prefix us b"
      by blast
    from us have "prefix (CHR ''$'' # occ) (CHR ''$'' # p)"
      by (metis prefixI)
    with g2 have "b = []" by blast
    with pu have "us = []" by simp
    with us g1 show False by simp
  qed
  from replaceScan_keeps [OF p o g, of v "[]" a]
  obtain a1 where r: "replace (a @ (CHR ''$'' # occ) @ b) (map Lit (CHR ''$'' # p)) v
        = a1 @ (CHR ''$'' # occ)
            @ replaceScan (map Lit (CHR ''$'' # p)) v ([] @ a @ (CHR ''$'' # occ)) b"
    and r2: "CHR ''$'' \<notin> set v \<longrightarrow> a1 = replace a (map Lit (CHR ''$'' # p)) v"
    unfolding replace_def by blast
  have e: "b = [] \<longrightarrow> replaceScan (map Lit (CHR ''$'' # p)) v ([] @ a @ (CHR ''$'' # occ)) b = []"
    using replaceScan_end [of "CHR ''$'' # p"] by simp
  have f: "CHR ''$'' \<notin> set v \<longrightarrow>
      replaceScan (map Lit (CHR ''$'' # p)) v ([] @ a @ (CHR ''$'' # occ)) b
        = replace b (map Lit (CHR ''$'' # p)) v"
    using replaceScan_pre [of "CHR ''$'' # p" v] by simp
  from r r2 e f show ?thesis by blast
qed

lemma plainText_no_special:
  assumes "plainText s"
  shows "CHR ''$'' \<notin> set s" "CHR ''{'' \<notin> set s" "CHR ''}'' \<notin> set s"
  using assms by (auto simp: plainText_def list_all_iff isSyntaxCharacter_def)

text \<open>The two passes of one variable.\<close>

lemma passes_keep:
  assumes "plainText k" and "CHR ''$'' \<notin> set occ"
    and "\<not> prefix (bracedPlaceholder k) (CHR ''$'' # occ)"
    and "\<not> prefix (CHR ''$'' # occ) (bracedPlaceholder k) \<or> b = []"
    and "\<not> prefix (barePlaceholder k) (CHR ''$'' # occ)"
    and "\<not> prefix (CHR ''$'' # occ) (barePlaceholder k) \<or> b = []"
  shows "\<exists>a1 b1. replace (replace (a @ (CHR ''$'' # occ) @ b) (map Lit (bracedPlaceholder k)) v)
                   (map Lit (barePlaceholder k)) v = a1 @ (CHR ''$'' # occ) @ b1
           \<and> (b = [] \<longrightarrow> b1 = [])
           \<and> (CHR ''$'' \<notin> set v \<longrightarrow>
                a1 = replace (replace a (map Lit (bracedPlaceholder k)) v)
                       (map Lit (barePlaceholder k)) v
                \<and> b1 = replace (replace b (map Lit (bracedPlaceholder k)) v)
                         (map Lit (barePlaceholder k)) v)"
proof -
  note nk = plainText_no_special [OF assms(1)]
  have bk: "bracedPlaceholder k = CHR ''$'' # (CHR ''{'' # k @ ''}'')"
    by (simp add: bracedPlaceholder_def)
  have nb: "CHR ''$'' \<notin> set (CHR ''{'' # k @ ''}'')"
    using nk(1) by simp
  from pass_keeps [OF nb assms(2) assms(3) [unfolded bk] assms(4) [unfolded bk], of a v]
  obtain a1 b1 where r1: "replace (a @ (CHR ''$'' # occ) @ b) (map Lit (bracedPlaceholder k)) v
      = a1 @ (CHR ''$'' # occ) @ b1"
    and e1: "b = [] \<longrightarrow> b1 = []"
    and s1: "CHR ''$'' \<notin> set v \<longrightarrow>
                   a1 = replace a (map Lit (bracedPlaceholder k)) v
                   \<and> b1 = replace b (map Lit (bracedPlaceholder k)) v"
    unfolding bk by blast
  have g4: "\<not> prefix (CHR ''$'' # occ) (CHR ''$'' # k) \<or> b1 = []"
    using assms(6) e1 by (auto simp: barePlaceholder_def)
  from pass_keeps [OF nk(1) assms(2) assms(5) [unfolded barePlaceholder_def] g4, of a1 v]
  obtain a2 b2 where r2: "replace (a1 @ (CHR ''$'' # occ) @ b1) (map Lit (barePlaceholder k)) v
      = a2 @ (CHR ''$'' # occ) @ b2"
    and e2: "b1 = [] \<longrightarrow> b2 = []"
    and s2: "CHR ''$'' \<notin> set v \<longrightarrow>
                   a2 = replace a1 (map Lit (barePlaceholder k)) v
                   \<and> b2 = replace b1 (map Lit (barePlaceholder k)) v"
    unfolding barePlaceholder_def by blast
  from r1 r2 e1 e2 s1 s2 show ?thesis by auto
qed

lemma replaceEntries_keep:
  assumes "list_all (\<lambda>(k, v). plainText k) es" and "CHR ''$'' \<notin> set occ"
    and "list_all (\<lambda>(k, v). \<not> prefix (bracedPlaceholder k) (CHR ''$'' # occ)
                          \<and> (\<not> prefix (CHR ''$'' # occ) (bracedPlaceholder k) \<or> b = [])
                          \<and> \<not> prefix (barePlaceholder k) (CHR ''$'' # occ)
                          \<and> (\<not> prefix (CHR ''$'' # occ) (barePlaceholder k) \<or> b = [])) es"
  shows "\<exists>a1 b1. replaceEntries es (a @ (CHR ''$'' # occ) @ b) = Inr (a1 @ (CHR ''$'' # occ) @ b1)
           \<and> (list_all (\<lambda>(k, v). CHR ''$'' \<notin> set v) es \<longrightarrow>
                replaceEntries es a = Inr a1 \<and> replaceEntries es b = Inr b1)"
  using assms(1,3)
proof (induction es arbitrary: a b)
  case Nil
  then show ?case by auto
next
  case (Cons e es)
  obtain k v where e: "e = (k, v)" by (cases e)
  from Cons.prems e have pk: "plainText k"
    and i: "\<not> prefix (bracedPlaceholder k) (CHR ''$'' # occ)"
      "\<not> prefix (CHR ''$'' # occ) (bracedPlaceholder k) \<or> b = []"
      "\<not> prefix (barePlaceholder k) (CHR ''$'' # occ)"
      "\<not> prefix (CHR ''$'' # occ) (barePlaceholder k) \<or> b = []"
    by simp_all
  from passes_keep [OF pk assms(2) i, of a v]
  obtain a1 b1 where r: "replace (replace (a @ (CHR ''$'' # occ) @ b) (map Lit (bracedPlaceholder k)) v)
                   (map Lit (barePlaceholder k)) v = a1 @ (CHR ''$'' # occ) @ b1"
    and e1: "b = [] \<longrightarrow> b1 = []"
    and s1: "CHR ''$'' \<notin> set v \<longrightarrow>
                a1 = replace (replace a (map Lit (bracedPlaceholder k)) v)
                       (map Lit (barePlaceholder k)) v
                \<and> b1 = replace (replace b (map Lit (bracedPlaceholder k)) v)
                         (map Lit (barePlaceholder k)) v"
    by blast
  have step: "\<And>s. replaceEntries (e # es) s
      = replaceEntries es (replace (replace s (map Lit (bracedPlaceholder k)) v)
                             (map Lit (barePlaceholder k)) v)"
    by (simp add: e RegExp_braced [OF pk] RegExp_bare [OF pk] Let_def)
  have rest: "list_all (\<lambda>(k, v). plainText k) es"
    using Cons.prems(1) by simp
  have guards: "list_all (\<lambda>(k, v). \<not> prefix (bracedPlaceholder k) (CHR ''$'' # occ)
                          \<and> (\<not> prefix (CHR ''$'' # occ) (bracedPlaceholder k) \<or> b1 = [])
                          \<and> \<not> prefix (barePlaceholder k) (CHR ''$'' # occ)
                          \<and> (\<not> prefix (CHR ''$'' # occ) (barePlaceholder k) \<or> b1 = [])) es"
    using Cons.prems(2) e1 by (auto simp: list_all_iff)
  from Cons.IH [OF rest guards, of a1]
  obtain a2 b2 where r2: "replaceEntries es (a1 @ (CHR ''$'' # occ) @ b1)
        = Inr (a2 @ (CHR ''$'' # occ) @ b2)"
    and s2: "list_all (\<lambda>(k, v). CHR ''$'' \<notin> set v) es \<longrightarrow>
                replaceEntries es a1 = Inr a2 \<and> replaceEntries es b1 = Inr b2"
    by blast
  have "replaceEntries (e # es) (a @ (CHR ''$'' # occ) @ b) = Inr (a2 @ (CHR ''$'' # occ) @ b2)"
    unfolding step r r2 ..
  moreover have "list_all (\<lambda>(k, v). CHR ''$'' \<notin> set v) (e # es) \<longrightarrow>
                replaceEntries (e # es) a = Inr a2 \<and> replaceEntries (e # es) b = Inr b2"
    unfolding step using s1 s2 by (auto simp: e)
  ultimately show ?case by blast
qed

lemma replaceEntries_plain:
  assumes "list_all (\<lambda>(k, v). plainText k) es"
  shows "\<exists>out. replaceEntries es s = Inr out"
  using assms
proof (induction es arbitrary: s)
  case Nil
  then show ?case by simp
next
  case (Cons e es)
  obtain k v where e: "e = (k, v)" by (cases e)
  from Cons.prems e have pk: "plainText k" and rest: "list_all (\<lambda>(k, v). plainText k) es"
    by simp_all
  show ?case
    using Cons.IH [OF rest] by (simp add: e RegExp_braced [OF pk] RegExp_bare [OF pk] Let_def)
qed

lemma closing_brace_unique:
  assumes "c \<notin> set k" and "c \<notin> set x" and "prefix (k @ [c]) (x @ [c])"
  shows "k = x"
proof -
  from assms(3) obtain zs where z: "x @ [c] = k @ c # zs"
    by (auto simp: prefix_def)
  show ?thesis
  proof (cases zs rule: rev_cases)
    case Nil
    with z show ?thesis by simp
  next
    case (snoc ys y)
    with z have "x = k @ c # ys" by simp
    with assms(2) show ?thesis by simp
  qed
qed

text \<open>
  A braced placeholder whose name has no closing brace can be touched by no placeholder
  of another plain name.
\<close>

lemma braced_apart:
  assumes "plainText k" and "k \<noteq> []" and "CHR ''}'' \<notin> set x" and "k \<noteq> x"
  shows "\<not> prefix (bracedPlaceholder k) (bracedPlaceholder x)"
    and "\<not> prefix (bracedPlaceholder x) (bracedPlaceholder k)"
    and "\<not> prefix (barePlaceholder k) (bracedPlaceholder x)"
    and "\<not> prefix (bracedPlaceholder x) (barePlaceholder k)"
proof -
  note nk = plainText_no_special [OF assms(1)]
  show "\<not> prefix (bracedPlaceholder k) (bracedPlaceholder x)"
    using closing_brace_unique [OF nk(3) assms(3)] assms(4)
    by (auto simp: bracedPlaceholder_def)
  show "\<not> prefix (bracedPlaceholder x) (bracedPlaceholder k)"
    using closing_brace_unique [OF assms(3) nk(3)] assms(4)
    by (auto simp: bracedPlaceholder_def)
  show "\<not> prefix (barePlaceholder k) (bracedPlaceholder x)"
    using nk(2) assms(2) by (cases k) (auto simp: bracedPlaceholder_def barePlaceholder_def)
  show "\<not> prefix (bracedPlaceholder x) (barePlaceholder k)"
    using nk(2) by (cases k) (auto simp: bracedPlaceholder_def barePlaceholder_def)
qed

text \<open>
  A dollar sign followed by text that does not start with a brace: only the bare
  placeholder of a name can touch it, and only when the name and the text are
  comparable.
\<close>

lemma bare_apart:
  assumes "\<not> prefix ''{'' y" and "\<not> prefix k y" and "\<not> prefix y k \<or> c = []"
  shows "\<not> prefix (bracedPlaceholder k) (barePlaceholder y)"
    and "\<not> prefix (barePlaceholder y) (bracedPlaceholder k) \<or> c = []"
    and "\<not> prefix (barePlaceholder k) (barePlaceholder y)"
    and "\<not> prefix (barePlaceholder y) (barePlaceholder k) \<or> c = []"
proof -
  show "\<not> prefix (bracedPlaceholder k) (barePlaceholder y)"
    using assms(1) by (cases y) (auto simp: bracedPlaceholder_def barePlaceholder_def)
  show "\<not> prefix (barePlaceholder y) (bracedPlaceholder k) \<or> c = []"
    using assms(1,3) by (cases y) (auto simp: bracedPlaceholder_def barePlaceholder_def)
  show "\<not> prefix (barePlaceholder k) (barePlaceholder y)"
    using assms(2) by (simp add: barePlaceholder_def)
  show "\<not> prefix (barePlaceholder y) (barePlaceholder k) \<or> c = []"
    using assms(3) by (simp add: barePlaceholder_def)
qed


text \<open>
  Claim C7, as the code has it. For a variable map whose names are plain,
  \<open>replaceVariables\<close> raises no error. When none of the names is empty, a braced
  placeholder \<open>${x}\<close> whose name has no dollar sign and no closing brace and is not a
  name of the map is kept: the output is some text, the placeholder, some text. A
  dollar sign followed by text \<open>y\<close> (the name of a bare placeholder and as much of the
  text after it as one likes, without a dollar sign and not starting with a brace) is
  kept when no name of the map is a prefix of \<open>y\<close>, and \<open>y\<close> is a prefix of no name
  of the map unless the template ends with it. In both cases, when no value of the map
  has a dollar sign, the placeholder is kept in place: the text before it and the text
  after it in the output are what the substitution makes of the text before it and of
  the text after it in the template, each on its own.
\<close>

theorem unmatched_placeholders_kept:
  assumes "list_all (\<lambda>(k, v). plainText k) variables"
  shows "(\<exists>out. replaceVariables t variables = Inr out)
    \<and> ([] \<notin> fst ` set variables
         \<and> CHR ''$'' \<notin> set x \<and> CHR ''}'' \<notin> set x \<and> x \<notin> fst ` set variables \<longrightarrow>
         (\<exists>a1 b1. replaceVariables (a @ bracedPlaceholder x @ b) variables
                     = Inr (a1 @ bracedPlaceholder x @ b1)
            \<and> (list_all (\<lambda>(k, v). CHR ''$'' \<notin> set v) variables \<longrightarrow>
                 replaceVariables a variables = Inr a1 \<and> replaceVariables b variables = Inr b1)))
    \<and> (CHR ''$'' \<notin> set y \<and> \<not> prefix ''{'' y
         \<and> list_all (\<lambda>(k, v). \<not> prefix k y \<and> (c = [] \<or> \<not> prefix y k)) variables \<longrightarrow>
         (\<exists>d1 c1. replaceVariables (d @ barePlaceholder y @ c) variables
                     = Inr (d1 @ barePlaceholder y @ c1)
            \<and> (list_all (\<lambda>(k, v). CHR ''$'' \<notin> set v) variables \<longrightarrow>
                 replaceVariables d variables = Inr d1 \<and> replaceVariables c variables = Inr c1)))"
proof (intro conjI impI)
  have pl: "list_all (\<lambda>(k, v). plainText k) (entries variables)"
    using assms by (auto simp: list_all_iff set_entries)
  have vs: "list_all (\<lambda>(k, v). CHR ''$'' \<notin> set v) (entries variables)
      = list_all (\<lambda>(k, v). CHR ''$'' \<notin> set v) variables"
    by (rule list_all_entries)
  show "\<exists>out. replaceVariables t variables = Inr out"
    unfolding replaceVariables_def using pl by (rule replaceEntries_plain)
  {
    assume h: "[] \<notin> fst ` set variables
         \<and> CHR ''$'' \<notin> set x \<and> CHR ''}'' \<notin> set x \<and> x \<notin> fst ` set variables"
    have eqx: "bracedPlaceholder x = CHR ''$'' # (CHR ''{'' # x @ ''}'')"
      by (simp add: bracedPlaceholder_def)
    have dx: "CHR ''$'' \<notin> set (CHR ''{'' # x @ ''}'')"
      using h by simp
    have ap: "list_all (\<lambda>(k, v). \<not> prefix (bracedPlaceholder k) (bracedPlaceholder x)
                          \<and> (\<not> prefix (bracedPlaceholder x) (bracedPlaceholder k) \<or> b = [])
                          \<and> \<not> prefix (barePlaceholder k) (bracedPlaceholder x)
                          \<and> (\<not> prefix (bracedPlaceholder x) (barePlaceholder k) \<or> b = []))
                (entries variables)"
      unfolding list_all_iff set_entries
    proof (intro ballI)
      fix e assume e: "e \<in> set variables"
      obtain k v where kv: "e = (k, v)" by (cases e)
      from e kv assms have k: "plainText k"
        by (auto simp: list_all_iff)
      from e kv h have "k \<noteq> []" and "k \<noteq> x"
        by force+
      with k h show "case e of (k, v) \<Rightarrow>
           \<not> prefix (bracedPlaceholder k) (bracedPlaceholder x)
         \<and> (\<not> prefix (bracedPlaceholder x) (bracedPlaceholder k) \<or> b = [])
         \<and> \<not> prefix (barePlaceholder k) (bracedPlaceholder x)
         \<and> (\<not> prefix (bracedPlaceholder x) (barePlaceholder k) \<or> b = [])"
        using braced_apart [of k x] kv by simp
    qed
    from replaceEntries_keep [OF pl dx ap [unfolded eqx], of a]
    show "\<exists>a1 b1. replaceVariables (a @ bracedPlaceholder x @ b) variables
                     = Inr (a1 @ bracedPlaceholder x @ b1)
            \<and> (list_all (\<lambda>(k, v). CHR ''$'' \<notin> set v) variables \<longrightarrow>
                 replaceVariables a variables = Inr a1 \<and> replaceVariables b variables = Inr b1)"
      unfolding replaceVariables_def eqx vs .
  }
  {
    assume h: "CHR ''$'' \<notin> set y \<and> \<not> prefix ''{'' y
         \<and> list_all (\<lambda>(k, v). \<not> prefix k y \<and> (c = [] \<or> \<not> prefix y k)) variables"
    have eqy: "barePlaceholder y = CHR ''$'' # y"
      by (simp add: barePlaceholder_def)
    have dy: "CHR ''$'' \<notin> set y"
      using h by simp
    have ap: "list_all (\<lambda>(k, v). \<not> prefix (bracedPlaceholder k) (barePlaceholder y)
                          \<and> (\<not> prefix (barePlaceholder y) (bracedPlaceholder k) \<or> c = [])
                          \<and> \<not> prefix (barePlaceholder k) (barePlaceholder y)
                          \<and> (\<not> prefix (barePlaceholder y) (barePlaceholder k) \<or> c = []))
                (entries variables)"
      unfolding list_all_iff set_entries
    proof (intro ballI)
      fix e assume e: "e \<in> set variables"
      obtain k v where kv: "e = (k, v)" by (cases e)
      from e kv h have "\<not> prefix k y" "\<not> prefix y k \<or> c = []"
        by (auto simp: list_all_iff)
      with h show "case e of (k, v) \<Rightarrow>
           \<not> prefix (bracedPlaceholder k) (barePlaceholder y)
         \<and> (\<not> prefix (barePlaceholder y) (bracedPlaceholder k) \<or> c = [])
         \<and> \<not> prefix (barePlaceholder k) (barePlaceholder y)
         \<and> (\<not> prefix (barePlaceholder y) (barePlaceholder k) \<or> c = [])"
        using bare_apart [of y k c] kv by simp
    qed
    from replaceEntries_keep [OF pl dy ap [unfolded eqy], of d]
    show "\<exists>d1 c1. replaceVariables (d @ barePlaceholder y @ c) variables
                     = Inr (d1 @ barePlaceholder y @ c1)
            \<and> (list_all (\<lambda>(k, v). CHR ''$'' \<notin> set v) variables \<longrightarrow>
                 replaceVariables d variables = Inr d1 \<and> replaceVariables c variables = Inr c1)"
      unfolding replaceVariables_def eqy vs .
  }
qed

theorem unmatched_placeholders_kept_witness:
  "(\<exists>out. replaceVariables ''echo ${arr[0]} ${FILE%.*} ${env}'' [(''env'', ''prod'')] = Inr out)
   \<and> replaceVariables ''echo ${arr[0]} ${FILE%.*} ${env}'' [(''env'', ''prod'')]
       = Inr ''echo ${arr[0]} ${FILE%.*} prod''
   \<and> replaceVariables ''${env} $en'' [(''env'', ''prod'')] = Inr ''prod $en''"
proof -
  have k: "list_all (\<lambda>(k, v). plainText k) [(''env'', ''prod'')]"
    by (simp add: plain_eval)
  have v: "list_all (\<lambda>(k, v). CHR ''$'' \<notin> set v) [(''env'', ''prod'')]"
    by simp
  have t1: "''echo ${arr[0]} ${FILE%.*} ${env}''
              = ''echo ${arr[0]} '' @ bracedPlaceholder ''FILE%.*'' @ '' ${env}''"
    and o1: "''echo ${arr[0]} ${FILE%.*} prod''
              = ''echo ${arr[0]} '' @ bracedPlaceholder ''FILE%.*'' @ '' prod''"
    and t2: "''${env} $en'' = ''${env} '' @ barePlaceholder ''en'' @ []"
    and o2: "''prod $en'' = ''prod '' @ barePlaceholder ''en'' @ []"
    by (simp_all add: bracedPlaceholder_def barePlaceholder_def)
  have h1: "[] \<notin> fst ` set [(''env'', ''prod'')]
              \<and> CHR ''$'' \<notin> set ''FILE%.*'' \<and> CHR ''}'' \<notin> set ''FILE%.*''
              \<and> ''FILE%.*'' \<notin> fst ` set [(''env'', ''prod'')]"
    by simp
  have h2: "CHR ''$'' \<notin> set ''en'' \<and> \<not> prefix ''{'' ''en''
         \<and> list_all (\<lambda>(k, v). \<not> prefix k ''en'' \<and> ([] = ([]::string) \<or> \<not> prefix ''en'' k))
             [(''env'', ''prod'')]"
    by simp
  have p1: "replaceVariables ''echo ${arr[0]} '' [(''env'', ''prod'')] = Inr ''echo ${arr[0]} ''"
    and p2: "replaceVariables '' ${env}'' [(''env'', ''prod'')] = Inr '' prod''"
    and p3: "replaceVariables ''${env} '' [(''env'', ''prod'')] = Inr ''prod ''"
    and p4: "replaceVariables [] [(''env'', ''prod'')] = Inr []"
    by (simp_all add: subst_eval)
  note fact = unmatched_placeholders_kept [OF k]
  have a: "\<exists>out. replaceVariables ''echo ${arr[0]} ${FILE%.*} ${env}'' [(''env'', ''prod'')] = Inr out"
    by (rule fact [THEN conjunct1])
  from fact [of _ "''FILE%.*''" "''echo ${arr[0]} ''" "'' ${env}''",
      THEN conjunct2, THEN conjunct1, THEN mp, OF h1]
  obtain a1 b1 where r: "replaceVariables (''echo ${arr[0]} '' @ bracedPlaceholder ''FILE%.*''
                                            @ '' ${env}'') [(''env'', ''prod'')]
        = Inr (a1 @ bracedPlaceholder ''FILE%.*'' @ b1)"
    and ab: "list_all (\<lambda>(k, v). CHR ''$'' \<notin> set v) [(''env'', ''prod'')] \<longrightarrow>
        replaceVariables ''echo ${arr[0]} '' [(''env'', ''prod'')] = Inr a1
        \<and> replaceVariables '' ${env}'' [(''env'', ''prod'')] = Inr b1"
    by blast
  from ab v p1 p2 have "a1 = ''echo ${arr[0]} ''" and "b1 = '' prod''"
    by simp_all
  with r have b: "replaceVariables ''echo ${arr[0]} ${FILE%.*} ${env}'' [(''env'', ''prod'')]
       = Inr ''echo ${arr[0]} ${FILE%.*} prod''"
    unfolding t1 o1 by (simp only:)
  from fact [of _ _ _ _ "''en''" "[]" "''${env} ''",
      THEN conjunct2, THEN conjunct2, THEN mp, OF h2]
  obtain d1 c1 where r2: "replaceVariables (''${env} '' @ barePlaceholder ''en'' @ [])
                            [(''env'', ''prod'')]
        = Inr (d1 @ barePlaceholder ''en'' @ c1)"
    and dc: "list_all (\<lambda>(k, v). CHR ''$'' \<notin> set v) [(''env'', ''prod'')] \<longrightarrow>
        replaceVariables ''${env} '' [(''env'', ''prod'')] = Inr d1
        \<and> replaceVariables [] [(''env'', ''prod'')] = Inr c1"
    by blast
  from dc v p3 p4 have "d1 = ''prod ''" and "c1 = []"
    by simp_all
  with r2 have c: "replaceVariables ''${env} $en'' [(''env'', ''prod'')] = Inr ''prod $en''"
    unfolding t2 o2 by (simp only:)
  from a b c show ?thesis by (intro conjI)
qed

text \<open>
  Claim C7 as stated fails. The bare placeholder \<open>$environment\<close>, whose name is not in
  the map, is rewritten through the name \<open>env\<close>; the name \<open>(\<close> makes the substitution
  throw a \<open>SyntaxError\<close>; the empty name rewrites the dollar sign of \<open>${missing}\<close>; the
  braced placeholders with the names \<open>a$b\<close> and \<open>a}b\<close>, which are not in the map, are
  rewritten through the names \<open>b\<close> and \<open>a\<close>; and the bare placeholder \<open>$en\<close> is
  rewritten once the text inserted after it has completed it to \<open>$env\<close>.
\<close>

theorem placeholders_not_always_kept:
  "replaceVariables ''$environment'' [(''env'', ''prod'')] = Inr ''prodironment''
   \<and> replaceVariables ''${missing}'' [(''('', ''v'')] = Inl (SyntaxError (bracedPattern ''(''))
   \<and> replaceVariables ''${missing}'' [([], ''v'')] = Inr ''v{missing}''
   \<and> replaceVariables ''${a$b}'' [(''b'', ''v'')] = Inr ''${av}''
   \<and> replaceVariables ''${a}b}'' [(''a'', ''v'')] = Inr ''vb}''
   \<and> replaceVariables ''$en${x}'' [(''x'', ''v''), (''env'', ''prod'')] = Inr ''prod''"
  by (simp add: subst_eval)

text \<open>
  With a value that has a dollar sign the text before a placeholder that is kept can
  depend on what follows it: the value \<open>$'\<close> copies the text after the match.
\<close>

lemma following_text_reaches_before:
  "replaceVariables ''${a}${x}'' [(''a'', [CHR ''$'', CHR 0x27])] = Inr ''${x}${x}''
   \<and> replaceVariables ''${a}'' [(''a'', [CHR ''$'', CHR 0x27])] = Inr []"
  by (simp add: subst_eval)

end
